theory Spec2Isabelle
  imports Complex_Main "HOL-Library.Char_ord" "HOL-Library.List_Lexorder"
begin

section \<open>Data model\<close>

text \<open>
  The program of \<^verbatim>\<open>link_categorizer.py\<close> works on Python dictionaries keyed by the
  link (a URL string). A dictionary is modelled as an association list in insertion
  order, because the deduplication pass iterates over \<^verbatim>\<open>keywords.items()\<close> and its
  result depends on that order. The keys of a dictionary are distinct; theorems that
  need this carry the hypothesis \<open>distinct (map fst d)\<close>.

  A \<^verbatim>\<open>Keyword\<close> is the pair \<^verbatim>\<open>Tuple[str, float]\<close>. The score is only stored and
  copied, never computed with, so it is modelled as a real number. A \<open>char\<close> stands
  for one character of a Python \<^verbatim>\<open>str\<close>, so that \<open>length\<close> is Python's \<^verbatim>\<open>len\<close>.
\<close>

type_synonym Keyword = "string \<times> real"
type_synonym Keywords = "Keyword list"
type_synonym 'v dict = "(string \<times> 'v) list"

text \<open>\<^verbatim>\<open>fuzz.ratio\<close> belongs to the library fuzzywuzzy, not to this program: it is a
  parameter of the model, a function from two strings to an integer score.\<close>

type_synonym ratio_fn = "string \<Rightarrow> string \<Rightarrow> int"

section \<open>Dictionary operations\<close>

text \<open>\<^verbatim>\<open>link in d\<close>.\<close>

definition has_key :: "'v dict \<Rightarrow> string \<Rightarrow> bool" where
  "has_key d k = (k \<in> set (map fst d))"

text \<open>\<^verbatim>\<open>d[k] = v\<close>: an existing key keeps its place in the iteration order, a new key
  is added at the end.\<close>

fun dict_set :: "'v dict \<Rightarrow> string \<Rightarrow> 'v \<Rightarrow> 'v dict" where
  "dict_set [] k v = [(k, v)]"
| "dict_set ((k', v') # d) k v =
     (if k' = k then (k, v) # d else (k', v') # dict_set d k v)"

section \<open>Keyword deduplication: \<^verbatim>\<open>simplify_keywords\<close>\<close>

definition THRESHOLD :: int where
  "THRESHOLD = 88"

text \<open>The number of entries of \<^verbatim>\<open>keywords[link]\<close>, the range of \<^verbatim>\<open>enumerate\<close>.\<close>

definition klen :: "Keywords dict \<Rightarrow> string \<Rightarrow> nat" where
  "klen kws link = (case map_of kws link of None \<Rightarrow> 0 | Some xs \<Rightarrow> length xs)"

text \<open>Reading \<^verbatim>\<open>keywords[link][j]\<close>. The loops only read slots that exist; \<open>None\<close>
  stands for the \<^verbatim>\<open>KeyError\<close> or \<^verbatim>\<open>IndexError\<close> of any other read.\<close>

definition slot_at :: "Keywords dict \<Rightarrow> string \<Rightarrow> nat \<Rightarrow> Keyword option" where
  "slot_at kws link j =
     (case map_of kws link of
        None \<Rightarrow> None
      | Some xs \<Rightarrow> if j < length xs then Some (xs ! j) else None)"

text \<open>The assignment \<^verbatim>\<open>keywords[link][i] = v\<close>: the list stored under \<^verbatim>\<open>link\<close> is
  updated in place at index \<^verbatim>\<open>i\<close>.\<close>

definition set_slot :: "Keywords dict \<Rightarrow> string \<Rightarrow> nat \<Rightarrow> Keyword \<Rightarrow> Keywords dict" where
  "set_slot kws link i v =
     map (\<lambda>(k, xs). if k = link then (k, xs[i := v]) else (k, xs)) kws"

text \<open>
  The body of the innermost loop, lines 166 to 175. The state is the dictionary and
  the local variable \<^verbatim>\<open>kw1\<close>, which the swap \<^verbatim>\<open>kw1, kw2 = kw2, kw1\<close> changes for the
  rest of the inner loops; \<^verbatim>\<open>str1\<close> is fixed by the outer \<^verbatim>\<open>enumerate\<close>, and
  \<^verbatim>\<open>kw2, str2\<close> are read from the list at the moment the iteration reaches \<^verbatim>\<open>j\<close>.
\<close>

definition compare_slots ::
  "ratio_fn \<Rightarrow> string \<Rightarrow> nat \<Rightarrow> real \<Rightarrow> string \<Rightarrow> nat \<Rightarrow>
   Keywords dict \<times> string \<Rightarrow> Keywords dict \<times> string" where
  "compare_slots ratio link1 i str1 link2 j st =
     (case st of (kws, kw1) \<Rightarrow>
        if link1 = link2 \<and> i = j then st
        else (case slot_at kws link2 j of
                None \<Rightarrow> st
              | Some (kw2, str2) \<Rightarrow>
                  if ratio kw1 kw2 > THRESHOLD then
                    (let kw1' = (if length kw1 > length kw2 then kw2 else kw1)
                     in (set_slot (set_slot kws link1 i (kw1', str1)) link2 j (kw1', str2),
                         kw1'))
                  else st))"

text \<open>\<^verbatim>\<open>for j, (kw2, str2) in enumerate(kwds2)\<close>, line 165.\<close>

definition loop_j ::
  "ratio_fn \<Rightarrow> string \<Rightarrow> nat \<Rightarrow> real \<Rightarrow> string \<Rightarrow>
   Keywords dict \<times> string \<Rightarrow> Keywords dict \<times> string" where
  "loop_j ratio link1 i str1 link2 st =
     fold (compare_slots ratio link1 i str1 link2) [0..<klen (fst st) link2] st"

text \<open>\<^verbatim>\<open>for link2, kwds2 in keywords.items()\<close>, line 164.\<close>

definition loop_link2 ::
  "ratio_fn \<Rightarrow> string \<Rightarrow> nat \<Rightarrow> real \<Rightarrow>
   Keywords dict \<times> string \<Rightarrow> Keywords dict \<times> string" where
  "loop_link2 ratio link1 i str1 st =
     fold (loop_j ratio link1 i str1) (map fst (fst st)) st"

text \<open>One round of \<^verbatim>\<open>for i, (kw1, str1) in enumerate(kwds)\<close>, line 163: the slot is
  read when the iteration reaches \<^verbatim>\<open>i\<close>, then the inner loops run.\<close>

definition visit_slot :: "ratio_fn \<Rightarrow> string \<Rightarrow> nat \<Rightarrow> Keywords dict \<Rightarrow> Keywords dict" where
  "visit_slot ratio link1 i kws =
     (case slot_at kws link1 i of
        None \<Rightarrow> kws
      | Some (kw1, str1) \<Rightarrow> fst (loop_link2 ratio link1 i str1 (kws, kw1)))"

definition loop_i :: "ratio_fn \<Rightarrow> string \<Rightarrow> Keywords dict \<Rightarrow> Keywords dict" where
  "loop_i ratio link1 kws = fold (visit_slot ratio link1) [0..<klen kws link1] kws"

text \<open>\<^verbatim>\<open>for link1, kwds in keywords.items()\<close>, line 162: the whole merge pass.\<close>

definition merge_pass :: "ratio_fn \<Rightarrow> Keywords dict \<Rightarrow> Keywords dict" where
  "merge_pass ratio kws = fold (loop_i ratio) (map fst kws) kws"

text \<open>
  Lines 177 to 180: \<^verbatim>\<open>list(set([x[0] for x in kwds]))\<close> for every link. Python leaves
  the order of the elements of a set unspecified; \<open>remdups\<close> is one such order, and
  the theorems below speak of the length and of the elements only.
\<close>

definition drop_strength :: "Keywords dict \<Rightarrow> string list dict" where
  "drop_strength kws = map (\<lambda>(link, kwds). (link, remdups (map fst kwds))) kws"

text \<open>
  \<^verbatim>\<open>simplify_keywords\<close> changes the lists of its argument and returns a new
  dictionary. The model returns both: the argument as the caller finds it after the
  call, and the returned dictionary.
\<close>

definition simplify_keywords ::
  "ratio_fn \<Rightarrow> Keywords dict \<Rightarrow> Keywords dict \<times> string list dict" where
  "simplify_keywords ratio keywords =
     (let merged = merge_pass ratio keywords in (merged, drop_strength merged))"

section \<open>Errors and the collaborators of the program\<close>

text \<open>
  The exceptions of the program, under the names of the error taxonomy:
  \<open>FetchError\<close> is an exception of \<^verbatim>\<open>requests.get\<close> or of \<^verbatim>\<open>raise_for_status\<close>,
  \<open>ExtractionError\<close> one of readability or of KeyBERT, \<open>MalformedURLError\<close> the
  \<^verbatim>\<open>AttributeError\<close> of \<^verbatim>\<open>re.match(...).group(1)\<close> on a link that does not match,
  \<open>CacheIOError\<close> the \<^verbatim>\<open>TypeError\<close> or \<^verbatim>\<open>ValueError\<close> of \<^verbatim>\<open>d.update\<close> on a cache file
  that is no dictionary and no sequence of pairs, and \<open>KeyError\<close> the read of a key
  that a dictionary does not have.
\<close>

datatype error = FetchError | ExtractionError | MalformedURLError | CacheIOError | KeyError

record response =
  status_code :: nat
  content :: string

text \<open>
  The libraries the program calls are parameters of the model: the network
  (\<^verbatim>\<open>requests.get\<close>), readability (\<^verbatim>\<open>Document(...).summary()\<close> and \<^verbatim>\<open>.title()\<close>),
  BeautifulSoup (\<^verbatim>\<open>get_text\<close>) and KeyBERT (\<^verbatim>\<open>extract_keywords(content, top_n=5)\<close>).
\<close>

record env =
  requests_get :: "string \<Rightarrow> error + response"
  doc_summary :: "string \<Rightarrow> error + string"
  doc_title :: "string \<Rightarrow> error + string"
  soup_text :: "string \<Rightarrow> string"
  extract_keywords :: "string \<Rightarrow> error + Keywords"

text \<open>\<^verbatim>\<open>response.raise_for_status()\<close> raises for the status codes 400 to 599.\<close>

definition raise_for_status :: "response \<Rightarrow> error + unit" where
  "raise_for_status r =
     (if 400 \<le> status_code r \<and> status_code r < 600 then Inl FetchError else Inr ())"

section \<open>\<^verbatim>\<open>get_content\<close> and \<^verbatim>\<open>get_keywords\<close>\<close>

definition get_content :: "env \<Rightarrow> string \<Rightarrow> error + string" where
  "get_content env link =
     (case requests_get env link of
        Inl e \<Rightarrow> Inl e
      | Inr response \<Rightarrow>
          (case raise_for_status response of
             Inl e \<Rightarrow> Inl e
           | Inr _ \<Rightarrow>
               (case doc_summary env (content response) of
                  Inl e \<Rightarrow> Inl e
                | Inr html \<Rightarrow>
                    (let text = soup_text env html
                     in if length text < 500 then doc_title env (content response)
                        else Inr text))))"

definition get_keywords :: "env \<Rightarrow> string \<Rightarrow> error + Keywords" where
  "get_keywords env text = extract_keywords env text"

section \<open>\<^verbatim>\<open>process_link\<close>\<close>

text \<open>
  The calls of the two collaborators are recorded, so that "no fetch" and "no
  extraction" can be stated. \<^verbatim>\<open>process_link\<close> returns nothing: what it leaves behind
  are the two dictionaries, changed in place, and possibly an exception.
\<close>

datatype call = Fetch string | Extract string

record link_result =
  raised :: "error option"
  contents_after :: "string dict"
  keywords_after :: "Keywords dict"
  performed :: "call list"

definition process_link :: "env \<Rightarrow> string \<Rightarrow> string dict \<Rightarrow> Keywords dict \<Rightarrow> link_result" where
  "process_link env link contents keywords =
     (let fetched =
            (if \<not> has_key contents link then
               (case get_content env link of
                  Inl e \<Rightarrow> Inl e
                | Inr text \<Rightarrow> Inr (dict_set contents link text, [Fetch link]))
             else Inr (contents, []))
      in case fetched of
           Inl e \<Rightarrow>
             \<lparr>raised = Some e, contents_after = contents, keywords_after = keywords,
              performed = [Fetch link]\<rparr>
         | Inr (contents1, calls1) \<Rightarrow>
             if \<not> has_key keywords link then
               (case map_of contents1 link of
                  None \<Rightarrow>
                    \<lparr>raised = Some KeyError, contents_after = contents1,
                     keywords_after = keywords, performed = calls1\<rparr>
                | Some text \<Rightarrow>
                    (case get_keywords env text of
                       Inl e \<Rightarrow>
                         \<lparr>raised = Some e, contents_after = contents1,
                          keywords_after = keywords, performed = calls1 @ [Extract text]\<rparr>
                     | Inr kwds \<Rightarrow>
                         \<lparr>raised = None, contents_after = contents1,
                          keywords_after = dict_set keywords link kwds,
                          performed = calls1 @ [Extract text]\<rparr>))
             else
               \<lparr>raised = None, contents_after = contents1, keywords_after = keywords,
                performed = calls1\<rparr>)"

section \<open>The cache files\<close>

text \<open>
  A file holds a JSON document. The model keeps the document and leaves out its
  bytes (indentation, escapes, the digits of a number). \<^verbatim>\<open>json.dumps\<close> with
  \<^verbatim>\<open>sort_keys=True\<close> writes the keys of an object in sorted order.
\<close>

datatype json =
    JString string | JNumber real | JArray "json list" | JObject "(string \<times> json) list"
  | JBool bool | JNull

type_synonym files = "string \<Rightarrow> json option"

definition dumps_sorted :: "('v \<Rightarrow> json) \<Rightarrow> 'v dict \<Rightarrow> json" where
  "dumps_sorted enc d = JObject (sort_key fst (map (\<lambda>(k, v). (k, enc v)) d))"

text \<open>\<^verbatim>\<open>d.update(members)\<close>: the members are entered one after the other.\<close>

definition dict_update :: "'v dict \<Rightarrow> (string \<times> 'v) list \<Rightarrow> 'v dict" where
  "dict_update d members = fold (\<lambda>(k, v) d'. dict_set d' k v) members d"

text \<open>
  Lines 28 to 32 and 51 to 55 make no check of the document: what loads is what
  \<^verbatim>\<open>json.loads\<close> followed by \<^verbatim>\<open>d.update\<close> accepts.
  \<^item> An object is a Python \<^verbatim>\<open>dict\<close>, with the last value of a repeated key, and
    \<^verbatim>\<open>d.update\<close> enters its items.
  \<^item> An array is a sequence of items. \<^verbatim>\<open>d.update\<close> takes every item as a sequence
    of exactly two elements, a key and a value: an array of two elements, a string of
    two characters, or an object with two keys (its keys are the elements). A key that
    is an array or an object cannot be hashed. Any other item raises.
  \<^item> The empty string is an empty sequence; a string with characters, a number,
    \<^verbatim>\<open>true\<close>, \<^verbatim>\<open>false\<close> and \<^verbatim>\<open>null\<close> raise.

  \<open>update_item\<close> gives the key and the value of one item of an array, or \<open>None\<close>
  where \<^verbatim>\<open>d.update\<close> raises.
\<close>

fun hashable :: "json \<Rightarrow> bool" where
  "hashable (JArray xs) = False"
| "hashable (JObject members) = False"
| "hashable _ = True"

fun update_item :: "json \<Rightarrow> (json \<times> json) option" where
  "update_item (JArray [k, v]) = (if hashable k then Some (k, v) else None)"
| "update_item (JString [a, b]) = Some (JString [a], JString [b])"
| "update_item (JObject members) =
     (case rev (remdups (rev (map fst members))) of
        [k1, k2] \<Rightarrow> Some (JString k1, JString k2)
      | _ \<Rightarrow> None)"
| "update_item _ = None"

fun update_items :: "json list \<Rightarrow> (json \<times> json) list option" where
  "update_items [] = Some []"
| "update_items (x # xs) =
     (case update_item x of
        None \<Rightarrow> None
      | Some p \<Rightarrow> (case update_items xs of None \<Rightarrow> None | Some ps \<Rightarrow> Some (p # ps)))"

text \<open>
  The dictionaries of the program are typed: \<^verbatim>\<open>Dict[str, str]\<close> and
  \<^verbatim>\<open>Dict[str, Keywords]\<close>, and so are the dictionaries of the model. Python does not
  check these types when it loads. A document that loads into a dictionary with a key
  that is no string, or with a value that is not of the declared type, is outside the
  model: the load gives \<open>OutsideTypes\<close>, which is no exception of the program, and
  the model says nothing of the run that follows. \<open>Raised\<close> is an exception of the
  program.
\<close>

datatype load_failure = Raised error | OutsideTypes

fun string_keys :: "(json \<times> 'v) list \<Rightarrow> (string \<times> 'v) list option" where
  "string_keys [] = Some []"
| "string_keys ((JString k, v) # rest) =
     (case string_keys rest of None \<Rightarrow> None | Some kvs \<Rightarrow> Some ((k, v) # kvs))"
| "string_keys (_ # rest) = None"

fun decode_members :: "(json \<Rightarrow> 'v option) \<Rightarrow> (string \<times> json) list \<Rightarrow> (string \<times> 'v) list option" where
  "decode_members dec [] = Some []"
| "decode_members dec ((k, j) # rest) =
     (case dec j of
        None \<Rightarrow> None
      | Some v \<Rightarrow> (case decode_members dec rest of None \<Rightarrow> None | Some vs \<Rightarrow> Some ((k, v) # vs)))"

text \<open>The dictionary that the items give, with the values still as JSON, and then
  with the values of the declared type.\<close>

definition typed_dict :: "(json \<Rightarrow> 'v option) \<Rightarrow> (string \<times> json) list \<Rightarrow> load_failure + 'v dict" where
  "typed_dict dec members =
     (case decode_members dec (dict_update [] members) of
        None \<Rightarrow> Inl OutsideTypes
      | Some d \<Rightarrow> Inr d)"

definition loads_dict :: "(json \<Rightarrow> 'v option) \<Rightarrow> json \<Rightarrow> load_failure + 'v dict" where
  "loads_dict dec doc =
     (case doc of
        JObject members \<Rightarrow> typed_dict dec members
      | JArray items \<Rightarrow>
          (case update_items items of
             None \<Rightarrow> Inl (Raised CacheIOError)
           | Some pairs \<Rightarrow>
               (case string_keys pairs of
                  None \<Rightarrow> Inl OutsideTypes
                | Some members \<Rightarrow> typed_dict dec members))
      | JString s \<Rightarrow> if s = [] then Inr [] else Inl (Raised CacheIOError)
      | _ \<Rightarrow> Inl (Raised CacheIOError))"

fun json_string :: "json \<Rightarrow> string option" where
  "json_string (JString s) = Some s"
| "json_string _ = None"

fun json_keyword :: "json \<Rightarrow> Keyword option" where
  "json_keyword (JArray [JString kw, JNumber score]) = Some (kw, score)"
| "json_keyword _ = None"

fun json_keyword_list :: "json list \<Rightarrow> Keywords option" where
  "json_keyword_list [] = Some []"
| "json_keyword_list (j # js) =
     (case json_keyword j of
        None \<Rightarrow> None
      | Some kw \<Rightarrow> (case json_keyword_list js of None \<Rightarrow> None | Some kws \<Rightarrow> Some (kw # kws)))"

fun json_keywords :: "json \<Rightarrow> Keywords option" where
  "json_keywords (JArray js) = json_keyword_list js"
| "json_keywords _ = None"

definition keywords_json :: "Keywords \<Rightarrow> json" where
  "keywords_json kwds = JArray (map (\<lambda>(kw, score). JArray [JString kw, JNumber score]) kwds)"

text \<open>
  The loaders return a plain, empty \<^verbatim>\<open>dict\<close> when the file does not exist and a
  \<^verbatim>\<open>manager.dict()\<close> proxy filled from the file otherwise. The flag of the result
  says which: \<open>True\<close> for the proxy, which worker processes share with the
  dispatcher, \<open>False\<close> for the plain dictionary, which a worker receives as a copy.
\<close>

definition load_content_cache :: "files \<Rightarrow> load_failure + bool \<times> string dict" where
  "load_content_cache fs =
     (case fs ''content_cache.txt'' of
        None \<Rightarrow> Inr (False, [])
      | Some doc \<Rightarrow>
          (case loads_dict json_string doc of Inl e \<Rightarrow> Inl e | Inr d \<Rightarrow> Inr (True, d)))"

definition update_content_cache :: "string dict \<Rightarrow> files \<Rightarrow> files" where
  "update_content_cache cache fs = fs(''content_cache.txt'' \<mapsto> dumps_sorted JString cache)"

definition load_keywords_cache :: "files \<Rightarrow> load_failure + bool \<times> Keywords dict" where
  "load_keywords_cache fs =
     (case fs ''keywords_cache.txt'' of
        None \<Rightarrow> Inr (False, [])
      | Some doc \<Rightarrow>
          (case loads_dict json_keywords doc of Inl e \<Rightarrow> Inl e | Inr d \<Rightarrow> Inr (True, d)))"

definition update_keywords_cache :: "Keywords dict \<Rightarrow> files \<Rightarrow> files" where
  "update_keywords_cache cache fs =
     fs(''keywords_cache.txt'' \<mapsto> dumps_sorted keywords_json cache)"

section \<open>\<^verbatim>\<open>group_links_by_domain\<close>\<close>

text \<open>
  \<^verbatim>\<open>re.match(r'https?://([^/]+)', link)\<close> and its group 1: the link starts with
  \<^verbatim>\<open>https://\<close> or \<^verbatim>\<open>http://\<close>, and the group is the longest run of characters other
  than \<^verbatim>\<open>/\<close> that follows, which must not be empty. \<open>None\<close> is the failed match.
\<close>

definition match_domain :: "string \<Rightarrow> string option" where
  "match_domain link =
     (let rest = (if take 8 link = ''https://'' then Some (drop 8 link)
                  else if take 7 link = ''http://'' then Some (drop 7 link)
                  else None)
      in case rest of
           None \<Rightarrow> None
         | Some r \<Rightarrow>
             (let domain = takeWhile (\<lambda>c. c \<noteq> CHR ''/'') r
              in if domain = [] then None else Some domain))"

text \<open>\<^verbatim>\<open>result_domain[domain].append(link)\<close> on a \<^verbatim>\<open>defaultdict(list)\<close>.\<close>

fun dict_append :: "string list dict \<Rightarrow> string \<Rightarrow> string \<Rightarrow> string list dict" where
  "dict_append [] k x = [(k, [x])]"
| "dict_append ((k', xs) # d) k x =
     (if k' = k then (k', xs @ [x]) # d else (k', xs) # dict_append d k x)"

fun group_loop :: "string list \<Rightarrow> string list dict \<Rightarrow> error + string list dict" where
  "group_loop [] result_domain = Inr result_domain"
| "group_loop (link # links) result_domain =
     (case match_domain link of
        None \<Rightarrow> Inl MalformedURLError
      | Some domain \<Rightarrow> group_loop links (dict_append result_domain domain link))"

text \<open>The argument is the dictionary from titles to links; the loop runs over its
  values.\<close>

definition group_links_by_domain :: "string dict \<Rightarrow> error + string list dict" where
  "group_links_by_domain links = group_loop (map snd links) []"

text \<open>The elements of a list in the order of their first occurrence.\<close>

fun first_seen :: "'a list \<Rightarrow> 'a list" where
  "first_seen [] = []"
| "first_seen (x # xs) = x # filter (\<lambda>y. y \<noteq> x) (first_seen xs)"

section \<open>\<^verbatim>\<open>process_links\<close>: the pool, the workers and the dispatcher\<close>

text \<open>
  \<^verbatim>\<open>process_links\<close> hands one task \<^verbatim>\<open>process_link(link, contents, keywords)\<close> per link
  to a pool of 12 worker processes and then polls. Workers and dispatcher run at the
  same time, so a run is a sequence of steps, and who takes the next step is decided by
  a schedule. Every step is one statement of the source; a theorem about all runs
  holds for every schedule.

  A task goes through the statements of \<^verbatim>\<open>process_link\<close>:
  \<^item> \<open>Submitted\<close>: \<^verbatim>\<open>apply_async\<close> was called; the arguments are not yet sent.
  \<^item> \<open>Sent\<close>: the arguments were pickled. A plain dictionary is copied at this
    moment (\<open>own_contents\<close>, \<open>own_keywords\<close>); a proxy stays shared.
  \<^item> \<open>AtContents\<close>: a worker has the task, at \<^verbatim>\<open>if link not in contents\<close>.
  \<^item> \<open>Fetching\<close>: at \<^verbatim>\<open>contents[link] = get_content(link)\<close>.
  \<^item> \<open>AtKeywords\<close>: at \<^verbatim>\<open>if link not in keywords\<close>.
  \<^item> \<open>ReadContents\<close>: at the read \<^verbatim>\<open>contents[link]\<close> of line 114.
  \<^item> \<open>Extracting text\<close>: at \<^verbatim>\<open>keywords[link] = get_keywords(text)\<close>.
  \<^item> \<open>Succeeded\<close>, \<open>Failed e\<close>: the \<^verbatim>\<open>AsyncResult\<close> is ready, without or with an
    exception.
\<close>

datatype worker_pc =
    Submitted | Sent | AtContents | Fetching | AtKeywords | ReadContents
  | Extracting string | Succeeded | Failed error

fun ready :: "worker_pc \<Rightarrow> bool" where
  "ready Succeeded = True"
| "ready (Failed e) = True"
| "ready _ = False"

fun successful :: "worker_pc \<Rightarrow> bool" where
  "successful Succeeded = True"
| "successful _ = False"

fun in_worker :: "worker_pc \<Rightarrow> bool" where
  "in_worker AtContents = True"
| "in_worker Fetching = True"
| "in_worker AtKeywords = True"
| "in_worker ReadContents = True"
| "in_worker (Extracting text) = True"
| "in_worker _ = False"

record task =
  task_link :: string
  wpc :: worker_pc
  own_contents :: "string dict"
  own_keywords :: "Keywords dict"

text \<open>
  The dispatcher goes through the statements of the polling loop, lines 134 to 157:
  \<^item> \<open>D_while\<close>: the test \<^verbatim>\<open>len(results) > 0\<close>, then \<^verbatim>\<open>sleep(10)\<close> and the progress line.
  \<^item> \<open>D_for n\<close>: the \<^verbatim>\<open>for\<close> loop is at the \<open>n\<close>-th pair \<^verbatim>\<open>res, link\<close> of \<^verbatim>\<open>results\<close>
    and evaluates \<^verbatim>\<open>res.ready() and not res.successful()\<close>.
  \<^item> \<open>D_except link n\<close>: in the handler, after \<^verbatim>\<open>contents[link] = ''\<close> and before
    \<^verbatim>\<open>keywords[link] = [('ERROR', 0.0)]\<close>.
  \<^item> \<open>D_filter\<close>: line 150, the tasks that are ready leave \<^verbatim>\<open>results\<close>.
  \<^item> \<open>D_flush\<close>: \<^verbatim>\<open>update_caches()\<close> of line 152.
  \<^item> \<open>D_join\<close>: \<^verbatim>\<open>pool.join()\<close>, which waits until every task has finished.
  \<^item> \<open>D_last_flush\<close>: \<^verbatim>\<open>update_caches()\<close> of line 155.
  \<^item> \<open>D_done\<close>: \<^verbatim>\<open>return dict(keywords)\<close>.
\<close>

datatype dispatcher_pc =
    D_while | D_for nat | D_except string nat | D_filter | D_flush | D_join
  | D_last_flush | D_done

record run_state =
  contents :: "string dict"
  "keywords" :: "Keywords dict"
  contents_proxy :: bool
  keywords_proxy :: bool
  tasks :: "task list"
  results :: "(nat \<times> string) list"
  dpc :: dispatcher_pc
  files :: files
  calls :: "call list"

datatype actor = W nat | D

text \<open>The dictionaries as a worker sees them: the shared ones through a proxy, its
  own copies otherwise.\<close>

definition seen_contents :: "run_state \<Rightarrow> task \<Rightarrow> string dict" where
  "seen_contents s t = (if contents_proxy s then contents s else own_contents t)"

definition seen_keywords :: "run_state \<Rightarrow> task \<Rightarrow> Keywords dict" where
  "seen_keywords s t = (if keywords_proxy s then keywords s else own_keywords t)"

definition set_pc :: "nat \<Rightarrow> worker_pc \<Rightarrow> run_state \<Rightarrow> run_state" where
  "set_pc i pc s = s\<lparr>tasks := (tasks s)[i := (tasks s ! i)\<lparr>wpc := pc\<rparr>]\<rparr>"

definition write_contents :: "nat \<Rightarrow> string \<Rightarrow> string \<Rightarrow> run_state \<Rightarrow> run_state" where
  "write_contents i link text s =
     (if contents_proxy s then s\<lparr>contents := dict_set (contents s) link text\<rparr>
      else s\<lparr>tasks := (tasks s)[i := (tasks s ! i)
                \<lparr>own_contents := dict_set (own_contents (tasks s ! i)) link text\<rparr>]\<rparr>)"

definition write_keywords :: "nat \<Rightarrow> string \<Rightarrow> Keywords \<Rightarrow> run_state \<Rightarrow> run_state" where
  "write_keywords i link kwds s =
     (if keywords_proxy s then s\<lparr>keywords := dict_set (keywords s) link kwds\<rparr>
      else s\<lparr>tasks := (tasks s)[i := (tasks s ! i)
                \<lparr>own_keywords := dict_set (own_keywords (tasks s ! i)) link kwds\<rparr>]\<rparr>)"

definition record_call :: "call \<Rightarrow> run_state \<Rightarrow> run_state" where
  "record_call c s = s\<lparr>calls := calls s @ [c]\<rparr>"

text \<open>The number of tasks that hold one of the 12 workers of \<^verbatim>\<open>Pool(12)\<close>.\<close>

definition busy_workers :: "run_state \<Rightarrow> nat" where
  "busy_workers s = length (filter (\<lambda>t. in_worker (wpc t)) (tasks s))"

definition worker_step :: "env \<Rightarrow> nat \<Rightarrow> run_state \<Rightarrow> run_state" where
  "worker_step env i s =
     (if i < length (tasks s) then
        (let t = tasks s ! i; link = task_link t
         in case wpc t of
              Submitted \<Rightarrow>
                s\<lparr>tasks := (tasks s)[i := t\<lparr>wpc := Sent, own_contents := contents s,
                                              own_keywords := keywords s\<rparr>]\<rparr>
            | Sent \<Rightarrow> if busy_workers s < 12 then set_pc i AtContents s else s
            | AtContents \<Rightarrow>
                if \<not> has_key (seen_contents s t) link then set_pc i Fetching s
                else set_pc i AtKeywords s
            | Fetching \<Rightarrow>
                (case get_content env link of
                   Inl e \<Rightarrow> record_call (Fetch link) (set_pc i (Failed e) s)
                 | Inr text \<Rightarrow>
                     record_call (Fetch link)
                       (set_pc i AtKeywords (write_contents i link text s)))
            | AtKeywords \<Rightarrow>
                if \<not> has_key (seen_keywords s t) link then set_pc i ReadContents s
                else set_pc i Succeeded s
            | ReadContents \<Rightarrow>
                (case map_of (seen_contents s t) link of
                   None \<Rightarrow> set_pc i (Failed KeyError) s
                 | Some text \<Rightarrow> set_pc i (Extracting text) s)
            | Extracting text \<Rightarrow>
                (case get_keywords env text of
                   Inl e \<Rightarrow> record_call (Extract text) (set_pc i (Failed e) s)
                 | Inr kwds \<Rightarrow>
                     record_call (Extract text)
                       (set_pc i Succeeded (write_keywords i link kwds s)))
            | Succeeded \<Rightarrow> s
            | Failed e \<Rightarrow> s)
      else s)"

text \<open>\<^verbatim>\<open>update_caches()\<close>: both dictionaries are written to their files.\<close>

definition update_caches :: "run_state \<Rightarrow> files" where
  "update_caches s =
     update_keywords_cache (keywords s) (update_content_cache (contents s) (files s))"

text \<open>\<^verbatim>\<open>res.ready()\<close> and \<^verbatim>\<open>res.successful()\<close> read the state of the task.\<close>

definition res_pc :: "run_state \<Rightarrow> nat \<Rightarrow> worker_pc" where
  "res_pc s res = wpc (tasks s ! res)"

definition dispatcher_step :: "run_state \<Rightarrow> run_state" where
  "dispatcher_step s =
     (case dpc s of
        D_while \<Rightarrow> if length (results s) > 0 then s\<lparr>dpc := D_for 0\<rparr> else s\<lparr>dpc := D_join\<rparr>
      | D_for n \<Rightarrow>
          if n < length (results s) then
            (case results s ! n of (res, link) \<Rightarrow>
               if ready (res_pc s res) \<and> \<not> successful (res_pc s res) then
                 s\<lparr>contents := dict_set (contents s) link '''', dpc := D_except link n\<rparr>
               else s\<lparr>dpc := D_for (Suc n)\<rparr>)
          else s\<lparr>dpc := D_filter\<rparr>
      | D_except link n \<Rightarrow>
          s\<lparr>keywords := dict_set (keywords s) link [(''ERROR'', 0)], dpc := D_for (Suc n)\<rparr>
      | D_filter \<Rightarrow>
          s\<lparr>results := filter (\<lambda>(res, link). \<not> ready (res_pc s res)) (results s),
            dpc := D_flush\<rparr>
      | D_flush \<Rightarrow> s\<lparr>files := update_caches s, dpc := D_while\<rparr>
      | D_join \<Rightarrow>
          if list_all (\<lambda>t. ready (wpc t)) (tasks s) then s\<lparr>dpc := D_last_flush\<rparr> else s
      | D_last_flush \<Rightarrow> s\<lparr>files := update_caches s, dpc := D_done\<rparr>
      | D_done \<Rightarrow> s)"

definition step :: "env \<Rightarrow> actor \<Rightarrow> run_state \<Rightarrow> run_state" where
  "step env a s = (case a of W i \<Rightarrow> worker_step env i s | D \<Rightarrow> dispatcher_step s)"

text \<open>
  Lines 118 to 132: the caches are loaded, one task per value of \<^verbatim>\<open>parsed_links\<close> is
  submitted, in order, and \<^verbatim>\<open>results\<close> holds the pairs \<^verbatim>\<open>(res, link)\<close>. A cache file
  on which \<^verbatim>\<open>d.update\<close> raises ends the run with the exception.
\<close>

definition new_task :: "string \<Rightarrow> task" where
  "new_task link = \<lparr>task_link = link, wpc = Submitted, own_contents = [], own_keywords = []\<rparr>"

definition init_run :: "files \<Rightarrow> string dict \<Rightarrow> load_failure + run_state" where
  "init_run fs parsed_links =
     (case load_content_cache fs of
        Inl e \<Rightarrow> Inl e
      | Inr (cproxy, cache) \<Rightarrow>
          (case load_keywords_cache fs of
             Inl e \<Rightarrow> Inl e
           | Inr (kproxy, kcache) \<Rightarrow>
               Inr \<lparr>contents = cache, keywords = kcache,
                    contents_proxy = cproxy, keywords_proxy = kproxy,
                    tasks = map new_task (map snd parsed_links),
                    results = zip [0..<length parsed_links] (map snd parsed_links),
                    dpc = D_while, files = fs, calls = []\<rparr>))"

definition run :: "env \<Rightarrow> actor list \<Rightarrow> run_state \<Rightarrow> run_state" where
  "run env schedule s = fold (step env) schedule s"





section \<open>Notions used in the statements and proofs\<close>

text \<open>All keyword strings of a corpus, over all links.\<close>

definition corpus_strings :: "Keywords dict \<Rightarrow> string set" where
  "corpus_strings kws = set (concat (map (\<lambda>(link, kwds). map fst kwds) kws))"

text \<open>
  What the merge pass keeps: the keys, the length of every list and the score of
  every slot (\<open>same_frame\<close>), and that every string of a slot comes from a given set
  (\<open>strings_in\<close>). \<open>inner_inv\<close> adds, for the inner loops, that the local variable
  \<^verbatim>\<open>kw1\<close> is the string that slot \<open>(link1, i)\<close> holds at that moment.
\<close>

definition same_frame :: "Keywords dict \<Rightarrow> Keywords dict \<Rightarrow> bool" where
  "same_frame a b \<longleftrightarrow>
     map fst b = map fst a \<and>
     (\<forall>l. klen b l = klen a l) \<and>
     (\<forall>l j. map_option snd (slot_at b l j) = map_option snd (slot_at a l j))"

definition strings_in :: "string set \<Rightarrow> Keywords dict \<Rightarrow> bool" where
  "strings_in S kws \<longleftrightarrow> (\<forall>l j w s. slot_at kws l j = Some (w, s) \<longrightarrow> w \<in> S)"

definition inner_inv ::
  "string set \<Rightarrow> Keywords dict \<Rightarrow> string \<Rightarrow> nat \<Rightarrow> real \<Rightarrow> Keywords dict \<times> string \<Rightarrow> bool" where
  "inner_inv S a link1 i str1 st \<longleftrightarrow>
     same_frame a (fst st) \<and> strings_in S (fst st) \<and>
     slot_at (fst st) link1 i = Some (snd st, str1)"

definition outer_inv :: "string set \<Rightarrow> Keywords dict \<Rightarrow> Keywords dict \<Rightarrow> bool" where
  "outer_inv S a b \<longleftrightarrow> same_frame a b \<and> strings_in S b"

text \<open>
  The merge pass in the words of its specification. The slots of a corpus are the
  positions of the lists of all links, in the order of iteration. \<open>slot_pairs\<close> is
  every ordered pair of distinct slots, in the order in which four nested loops over
  the slots reach them. \<open>merge_pair\<close> is the comparison of one pair on a corpus: when
  the ratio of the two strings exceeds 88, both slots take the shorter string, the
  first one when the lengths are equal, and keep their scores.
\<close>

definition slots :: "Keywords dict \<Rightarrow> (string \<times> nat) list" where
  "slots kws = concat (map (\<lambda>link. map (Pair link) [0..<klen kws link]) (map fst kws))"

definition pairs_from :: "'a \<Rightarrow> 'a list \<Rightarrow> ('a \<times> 'a) list" where
  "pairs_from a bs = concat (map (\<lambda>b. if a = b then [] else [(a, b)]) bs)"

definition slot_pairs :: "Keywords dict \<Rightarrow> ((string \<times> nat) \<times> (string \<times> nat)) list" where
  "slot_pairs kws = concat (map (\<lambda>a. pairs_from a (slots kws)) (slots kws))"

definition merge_pair ::
  "ratio_fn \<Rightarrow> (string \<times> nat) \<times> (string \<times> nat) \<Rightarrow> Keywords dict \<Rightarrow> Keywords dict" where
  "merge_pair ratio p kws =
     (case p of ((link1, i), (link2, j)) \<Rightarrow>
        (case slot_at kws link1 i of
           None \<Rightarrow> kws
         | Some (kw1, str1) \<Rightarrow>
             (case slot_at kws link2 j of
                None \<Rightarrow> kws
              | Some (kw2, str2) \<Rightarrow>
                  if ratio kw1 kw2 > 88 then
                    (let shorter = (if length kw2 < length kw1 then kw2 else kw1)
                     in set_slot (set_slot kws link1 i (shorter, str1)) link2 j (shorter, str2))
                  else kws)))"

text \<open>The domain of a link that matches; the empty string stands for no match.\<close>

definition domain_of :: "string \<Rightarrow> string" where
  "domain_of link = (case match_domain link of None \<Rightarrow> [] | Some d \<Rightarrow> d)"

section \<open>Example data\<close>

text \<open>
  A similarity function for the examples. It has the values of \<^verbatim>\<open>fuzz.ratio\<close> on the
  pairs the examples use: 100 for equal strings, 97 for \<^verbatim>\<open>neural network\<close> against
  \<^verbatim>\<open>neural networks\<close> (28 matching characters of 29), 89 for \<^verbatim>\<open>EROR\<close> against
  \<^verbatim>\<open>ERROR\<close> (8 of 9); every other pair of the examples is far below the threshold,
  for which 0 stands here.
\<close>

definition ratio_ex :: ratio_fn where
  "ratio_ex a b =
     (if a = b then 100
      else if (a = ''neural network'' \<and> b = ''neural networks'') \<or>
              (a = ''neural networks'' \<and> b = ''neural network'') then 97
      else if (a = ''EROR'' \<and> b = ''ERROR'') \<or> (a = ''ERROR'' \<and> b = ''EROR'') then 89
      else 0)"

definition kws_ex :: "Keywords dict" where
  "kws_ex =
     [(''https://a.com/x'', [(''neural networks'', 0.5), (''database index'', 0.4)]),
      (''https://b.com/z'', [(''neural network'', 0.7)])]"

text \<open>A corpus in which one link has two similar strings.\<close>

definition kws_dup :: "Keywords dict" where
  "kws_dup =
     [(''https://a.com/x'',
       [(''neural networks'', 0.5), (''database index'', 0.4), (''neural network'', 0.7)])]"

text \<open>
  Collaborators for the examples: \<^verbatim>\<open>https://a.com/x\<close> is a page with 500 characters
  of text, \<^verbatim>\<open>https://a.com/y\<close> a page with a short text, \<^verbatim>\<open>https://b.com/z\<close>
  answers with status 404, and every other link cannot be reached.
\<close>

definition long_text :: string where
  "long_text = replicate 500 (CHR ''a'')"

definition env_ex :: env where
  "env_ex =
     \<lparr>requests_get = (\<lambda>link.
          if link = ''https://a.com/x'' then Inr \<lparr>status_code = 200, content = long_text\<rparr>
          else if link = ''https://a.com/y'' then Inr \<lparr>status_code = 200, content = ''short page''\<rparr>
          else if link = ''https://b.com/z'' then Inr \<lparr>status_code = 404, content = ''''\<rparr>
          else Inl FetchError),
      doc_summary = (\<lambda>body. Inr body),
      doc_title = (\<lambda>body. Inr ''A title''),
      soup_text = (\<lambda>html. html),
      extract_keywords = (\<lambda>text.
          if text = ''A title'' then Inr [(''neural network'', 0.7)]
          else Inr [(''neural networks'', 0.5), (''database index'', 0.4)])\<rparr>"

text \<open>The dictionary from titles to links of the examples.\<close>

definition links_ex :: "string dict" where
  "links_ex = [(''X'', ''https://a.com/x''), (''Y'', ''https://a.com/y''), (''Z'', ''https://b.com/z'')]"

text \<open>A content cache whose keys are not in sorted order, and a directory without
  files.\<close>

definition contents_ex :: "string dict" where
  "contents_ex = [(''https://b.com/z'', ''''), (''https://a.com/x'', ''some text'')]"

definition no_files :: files where
  "no_files = (\<lambda>name. None)"


definition files_ex :: files where
  "files_ex = no_files
     (''content_cache.txt'' \<mapsto> JObject [],
      ''keywords_cache.txt'' \<mapsto>
        JObject [(''https://old.org/p'', JArray [JArray [JString ''legacy'', JNumber 0.9]])])"

definition state0_ex :: run_state where
  "state0_ex =
     \<lparr>contents = [], keywords = [(''https://old.org/p'', [(''legacy'', 0.9)])],
      contents_proxy = True, keywords_proxy = True,
      tasks = map new_task [''https://a.com/x'', ''https://a.com/y'', ''https://b.com/z''],
      results = [(0, ''https://a.com/x''), (1, ''https://a.com/y''), (2, ''https://b.com/z'')],
      dpc = D_while, files = files_ex, calls = []\<rparr>"

section \<open>Invariants of a run\<close>




section \<open>Example runs\<close>



text \<open>The state in which \<^verbatim>\<open>process_links\<close> starts when no cache file exists: both
  dictionaries are plain and empty.\<close>

definition state0_plain :: run_state where
  "state0_plain =
     \<lparr>contents = [], keywords = [],
      contents_proxy = False, keywords_proxy = False,
      tasks = map new_task [''https://a.com/x'', ''https://a.com/y'', ''https://b.com/z''],
      results = [(0, ''https://a.com/x''), (1, ''https://a.com/y''), (2, ''https://b.com/z'')],
      dpc = D_while, files = no_files, calls = []\<rparr>"



section \<open>Properties of the merge pass\<close>

lemma fold_inv:
  "P s \<Longrightarrow> (\<And>x t. x \<in> set xs \<Longrightarrow> P t \<Longrightarrow> P (f x t)) \<Longrightarrow> P (fold f xs s)"
  by (induction xs arbitrary: s) auto

lemma map_fst_set_slot: "map fst (set_slot kws l i v) = map fst kws"
  by (induction kws) (auto simp: set_slot_def)

lemma map_of_set_slot:
  "map_of (set_slot kws l i v) k =
     (if k = l then map_option (\<lambda>xs. xs[i := v]) (map_of kws l) else map_of kws k)"
  by (induction kws) (auto simp: set_slot_def)

lemma slot_at_set_slot:
  "slot_at (set_slot kws l i v) l' j =
     (if l' = l \<and> j = i \<and> i < klen kws l then Some v else slot_at kws l' j)"
  by (cases "map_of kws l") (auto simp: slot_at_def klen_def map_of_set_slot nth_list_update)

lemma slot_at_klen: "slot_at kws l i = Some p \<Longrightarrow> i < klen kws l"
  by (auto simp: slot_at_def klen_def split: option.splits if_splits)

lemma compare_slots_same: "compare_slots ratio link1 i str1 link1 i st = st"
  by (cases st) (simp add: compare_slots_def)

lemma compare_slots_other:
  assumes "\<not> (link1 = link2 \<and> i = j)"
  shows "compare_slots ratio link1 i str1 link2 j (kws, kw1) =
     (case slot_at kws link2 j of
        None \<Rightarrow> (kws, kw1)
      | Some (kw2, str2) \<Rightarrow>
          if ratio kw1 kw2 > THRESHOLD then
            (let kw1' = (if length kw1 > length kw2 then kw2 else kw1)
             in (set_slot (set_slot kws link1 i (kw1', str1)) link2 j (kw1', str2), kw1'))
          else (kws, kw1))"
  unfolding compare_slots_def prod.case if_not_P[OF assms] ..

lemma klen_set_slot: "klen (set_slot kws l i v) l' = klen kws l'"
  by (auto simp: klen_def map_of_set_slot split: option.splits)

lemma same_frame_refl: "same_frame a a"
  by (simp add: same_frame_def)

lemma same_frame_scoreD:
  "same_frame a b \<Longrightarrow> map_option snd (slot_at b l j) = map_option snd (slot_at a l j)"
  unfolding same_frame_def by simp

lemma same_frame_set_slot:
  assumes "same_frame a b" "slot_at b l i = Some (w, s)"
  shows "same_frame a (set_slot b l i (w', s))"
proof -
  have "map_option snd (slot_at a l i) = map_option snd (slot_at b l i)"
    by (rule same_frame_scoreD[OF assms(1), symmetric])
  also have "\<dots> = Some s"
    by (simp add: assms(2))
  finally have sc: "map_option snd (slot_at a l i) = Some s" .
  have "map_option snd (slot_at (set_slot b l i (w', s)) l' j) = map_option snd (slot_at a l' j)"
    for l' j
  proof (cases "l' = l \<and> j = i")
    case True
    have "slot_at (set_slot b l i (w', s)) l' j = Some (w', s)"
      using True slot_at_klen[OF assms(2)] by (simp add: slot_at_set_slot)
    then have "map_option snd (slot_at (set_slot b l i (w', s)) l' j) = Some s"
      by simp
    also have "\<dots> = map_option snd (slot_at a l' j)"
      using True sc[symmetric] by (simp only:)
    finally show ?thesis .
  next
    case False
    have "slot_at (set_slot b l i (w', s)) l' j = slot_at b l' j"
      using False by (auto simp: slot_at_set_slot)
    then show ?thesis
      by (simp add: same_frame_scoreD[OF assms(1)])
  qed
  then show ?thesis
    using assms(1) unfolding same_frame_def
    by (simp add: map_fst_set_slot klen_set_slot)
qed

lemma strings_in_set_slot:
  assumes "strings_in S b" "w' \<in> S"
  shows "strings_in S (set_slot b l i (w', s))"
  using assms
  by (auto simp: strings_in_def slot_at_set_slot split: if_splits)

lemma compare_slots_inv:
  assumes "inner_inv S a link1 i str1 st"
  shows "inner_inv S a link1 i str1 (compare_slots ratio link1 i str1 link2 j st)"
proof (cases "link1 = link2 \<and> i = j")
  case True
  then show ?thesis using assms by (simp add: compare_slots_same)
next
  case ne: False
  obtain kws kw1 where st: "st = (kws, kw1)" by (cases st)
  have fr: "same_frame a kws" and si: "strings_in S kws"
    and s1: "slot_at kws link1 i = Some (kw1, str1)"
    using assms by (simp_all add: st inner_inv_def)
  show ?thesis
  proof (cases "slot_at kws link2 j")
    case None
    then show ?thesis using assms st by (simp add: compare_slots_other[OF ne])
  next
    case (Some p)
    obtain kw2 str2 where s2: "slot_at kws link2 j = Some (kw2, str2)"
      using Some by (cases p) simp
    show ?thesis
    proof (cases "ratio kw1 kw2 > THRESHOLD")
      case False
      then show ?thesis using assms st s2 by (simp add: compare_slots_other[OF ne])
    next
      case True
      define c where "c = (if length kw1 > length kw2 then kw2 else kw1)"
      have "kw1 \<in> S" "kw2 \<in> S"
        using si s1 s2 by (auto simp: strings_in_def)
      then have cS: "c \<in> S" by (simp add: c_def)
      let ?k1 = "set_slot kws link1 i (c, str1)"
      let ?k2 = "set_slot ?k1 link2 j (c, str2)"
      have f1: "same_frame a ?k1" using fr s1 by (rule same_frame_set_slot)
      have s2': "slot_at ?k1 link2 j = Some (kw2, str2)"
        using s2 ne by (auto simp: slot_at_set_slot)
      have f2: "same_frame a ?k2" using f1 s2' by (rule same_frame_set_slot)
      have st2: "strings_in S ?k2" using si cS by (auto intro!: strings_in_set_slot)
      have sl: "slot_at ?k2 link1 i = Some (c, str1)"
        using slot_at_klen[OF s1] ne by (auto simp: slot_at_set_slot klen_set_slot)
      have "compare_slots ratio link1 i str1 link2 j st = (?k2, c)"
        using True s2 by (simp add: st compare_slots_other[OF ne] c_def Let_def)
      then show ?thesis using f2 st2 sl by (simp add: inner_inv_def)
    qed
  qed
qed

lemma loop_j_inv:
  "inner_inv S a link1 i str1 st \<Longrightarrow> inner_inv S a link1 i str1 (loop_j ratio link1 i str1 link2 st)"
  unfolding loop_j_def by (rule fold_inv) (auto intro: compare_slots_inv)

lemma loop_link2_inv:
  "inner_inv S a link1 i str1 st \<Longrightarrow> inner_inv S a link1 i str1 (loop_link2 ratio link1 i str1 st)"
  unfolding loop_link2_def by (rule fold_inv) (auto intro: loop_j_inv)

lemma visit_slot_inv:
  assumes "outer_inv S a b"
  shows "outer_inv S a (visit_slot ratio link1 i b)"
proof (cases "slot_at b link1 i")
  case None
  then show ?thesis using assms by (simp add: visit_slot_def)
next
  case (Some p)
  obtain kw1 str1 where p: "p = (kw1, str1)" by (cases p)
  have "inner_inv S a link1 i str1 (b, kw1)"
    using assms Some p by (simp add: inner_inv_def outer_inv_def)
  then have "inner_inv S a link1 i str1 (loop_link2 ratio link1 i str1 (b, kw1))"
    by (rule loop_link2_inv)
  then show ?thesis using Some p by (simp add: visit_slot_def inner_inv_def outer_inv_def)
qed

lemma loop_i_inv: "outer_inv S a b \<Longrightarrow> outer_inv S a (loop_i ratio link1 b)"
  unfolding loop_i_def by (rule fold_inv) (auto intro: visit_slot_inv)

lemma merge_pass_inv: "outer_inv S a b \<Longrightarrow> outer_inv S a (fold (loop_i ratio) ls b)"
  by (rule fold_inv) (auto intro: loop_i_inv)

lemma strings_in_corpus: "strings_in (corpus_strings kws) kws"
proof -
  have "w \<in> corpus_strings kws" if "slot_at kws l j = Some (w, s)" for l j w s
  proof -
    have "\<exists>xs. map_of kws l = Some xs \<and> j < length xs \<and> xs ! j = (w, s)"
      using that by (cases "map_of kws l") (auto simp: slot_at_def split: if_splits)
    then obtain xs where xs: "map_of kws l = Some xs" "j < length xs" "xs ! j = (w, s)"
      by blast
    then have "(l, xs) \<in> set kws" by (auto dest: map_of_SomeD)
    moreover have "w \<in> fst ` set xs"
      using xs by (metis fst_conv image_eqI nth_mem)
    ultimately show ?thesis by (force simp: corpus_strings_def)
  qed
  then show ?thesis by (auto simp: strings_in_def)
qed

lemma merge_pass_outer_inv:
  "outer_inv (corpus_strings kws) kws (merge_pass ratio kws)"
  unfolding merge_pass_def
  by (rule merge_pass_inv) (simp add: outer_inv_def same_frame_refl strings_in_corpus)

lemma map_of_drop_strength:
  "map_of (drop_strength kws) l = map_option (\<lambda>kwds. remdups (map fst kwds)) (map_of kws l)"
  by (induction kws) (auto simp: drop_strength_def)

lemma same_frame_lookup:
  assumes "same_frame a b" "map_of a l = Some xs"
  shows "\<exists>ys. map_of b l = Some ys \<and> length ys = length xs \<and> map snd ys = map snd xs"
proof -
  have "l \<in> set (map fst a)" using assms(2) by (auto dest: map_of_SomeD intro: rev_image_eqI)
  then have "l \<in> set (map fst b)" using assms(1) by (simp add: same_frame_def)
  then obtain ys where ys: "map_of b l = Some ys"
    by (metis map_of_eq_None_iff not_Some_eq set_map)
  have "klen b l = klen a l" using assms(1) by (simp add: same_frame_def)
  then have len: "length ys = length xs" using ys assms(2) by (simp add: klen_def)
  have "snd (ys ! j) = snd (xs ! j)" if "j < length xs" for j
    using same_frame_scoreD[OF assms(1), of l j] that len ys assms(2)
    by (simp add: slot_at_def)
  then have "map snd ys = map snd xs"
    using len by (auto intro: nth_equalityI)
  then show ?thesis using ys len by blast
qed

lemma strings_in_lookup:
  assumes "strings_in S b" "map_of b l = Some ys"
  shows "fst ` set ys \<subseteq> S"
proof
  fix w assume "w \<in> fst ` set ys"
  then obtain j where j: "j < length ys" "fst (ys ! j) = w"
    by (auto simp: in_set_conv_nth)
  then have "slot_at b l j = Some (w, snd (ys ! j))"
    using assms(2) by (auto simp: slot_at_def)
  then show "w \<in> S" using assms(1) by (auto simp: strings_in_def)
qed

lemma slot_at_Some: "i < klen kws l \<Longrightarrow> \<exists>p. slot_at kws l i = Some p"
  by (auto simp: slot_at_def klen_def split: option.splits)

lemma klen_has_key: "i < klen kws l \<Longrightarrow> l \<in> set (map fst kws)"
  by (cases "map_of kws l") (auto simp: klen_def dest: map_of_SomeD intro: rev_image_eqI)

lemma in_slots: "(l, i) \<in> set (slots kws) \<longleftrightarrow> slot_at kws l i \<noteq> None"
proof
  assume "(l, i) \<in> set (slots kws)"
  then have "i < klen kws l" by (auto simp: slots_def)
  then show "slot_at kws l i \<noteq> None" using slot_at_Some by fastforce
next
  assume "slot_at kws l i \<noteq> None"
  then obtain p where "slot_at kws l i = Some p" by blast
  then have k: "i < klen kws l" by (rule slot_at_klen)
  then have "l \<in> set (map fst kws)" by (rule klen_has_key)
  then obtain b where "(l, b) \<in> set kws" by auto
  moreover have "(l, i) \<in> Pair (fst (l, b)) ` {0..<klen kws (fst (l, b))}" for b
    using k by simp
  ultimately show "(l, i) \<in> set (slots kws)"
    unfolding slots_def by (auto simp del: fst_conv intro!: bexI)
qed

lemma in_slot_pairs:
  "(a, b) \<in> set (slot_pairs kws) \<longleftrightarrow> a \<in> set (slots kws) \<and> b \<in> set (slots kws) \<and> a \<noteq> b"
  by (auto simp: slot_pairs_def pairs_from_def split: if_splits)

lemma merge_pair_frame:
  "map fst (merge_pair ratio p kws) = map fst kws"
  "klen (merge_pair ratio p kws) l = klen kws l"
  by (auto simp: merge_pair_def map_fst_set_slot klen_set_slot Let_def
      split: prod.splits option.splits)

lemma fold_merge_pair_frame:
  "map fst (fold (merge_pair ratio) ps kws) = map fst kws"
  "klen (fold (merge_pair ratio) ps kws) l = klen kws l"
  by (induction ps arbitrary: kws) (simp_all add: merge_pair_frame)

lemma slots_fold_merge_pair: "slots (fold (merge_pair ratio) ps kws) = slots kws"
  by (simp add: slots_def fold_merge_pair_frame)

lemma slots_rows:
  "concat (map h (slots kws)) =
   concat (map (\<lambda>l. concat (map (\<lambda>i. h (l, i)) [0..<klen kws l])) (map fst kws))"
proof -
  have "concat (map h (concat (map (\<lambda>l. map (Pair l) (r l)) ls))) =
        concat (map (\<lambda>l. concat (map (\<lambda>i. h (l, i)) (r l))) ls)" for r and ls :: "string list"
    by (induction ls) (simp_all add: comp_def)
  from this[of "\<lambda>l. [0..<klen kws l]" "map fst kws"] show ?thesis
    unfolding slots_def .
qed

lemma compare_slots_merge_pair:
  assumes "slot_at kws link1 i = Some (kw1, str1)"
  shows "\<exists>kw1'. compare_slots ratio link1 i str1 link2 j (kws, kw1) =
           (fold (merge_pair ratio) (pairs_from (link1, i) [(link2, j)]) kws, kw1') \<and>
         slot_at (fold (merge_pair ratio) (pairs_from (link1, i) [(link2, j)]) kws) link1 i =
           Some (kw1', str1)"
proof (cases "link1 = link2 \<and> i = j")
  case True
  then show ?thesis using assms by (simp add: compare_slots_same pairs_from_def)
next
  case ne: False
  then have pf: "pairs_from (link1, i) [(link2, j)] = [((link1, i), (link2, j))]"
    by (auto simp: pairs_from_def)
  show ?thesis
  proof (cases "slot_at kws link2 j")
    case None
    then show ?thesis
      using assms by (simp add: pf compare_slots_other[OF ne] merge_pair_def)
  next
    case (Some p)
    obtain kw2 str2 where s2: "slot_at kws link2 j = Some (kw2, str2)"
      using Some by (cases p) simp
    show ?thesis
    proof (cases "ratio kw1 kw2 > 88")
      case False
      then show ?thesis
        using assms s2 by (simp add: pf compare_slots_other[OF ne] merge_pair_def THRESHOLD_def)
    next
      case True
      define c where "c = (if length kw2 < length kw1 then kw2 else kw1)"
      let ?k = "set_slot (set_slot kws link1 i (c, str1)) link2 j (c, str2)"
      have m: "merge_pair ratio ((link1, i), (link2, j)) kws = ?k"
        using True assms s2 by (simp add: merge_pair_def c_def Let_def)
      have cs: "compare_slots ratio link1 i str1 link2 j (kws, kw1) = (?k, c)"
        using True s2 by (simp add: compare_slots_other[OF ne] c_def Let_def THRESHOLD_def)
      have sl: "slot_at ?k link1 i = Some (c, str1)"
        using slot_at_klen[OF assms] ne by (auto simp: slot_at_set_slot klen_set_slot)
      show ?thesis using m cs sl by (simp add: pf)
    qed
  qed
qed

lemma pairs_from_Cons: "pairs_from a (b # bs) = pairs_from a [b] @ pairs_from a bs"
  by (simp add: pairs_from_def)

lemma loop_j_merge_pair:
  assumes "slot_at kws link1 i = Some (kw1, str1)"
  shows "\<exists>kw1'. fold (compare_slots ratio link1 i str1 link2) js (kws, kw1) =
           (fold (merge_pair ratio) (pairs_from (link1, i) (map (Pair link2) js)) kws, kw1') \<and>
         slot_at (fold (merge_pair ratio) (pairs_from (link1, i) (map (Pair link2) js)) kws)
           link1 i = Some (kw1', str1)"
  using assms
proof (induction js arbitrary: kws kw1)
  case Nil
  then show ?case by (simp add: pairs_from_def)
next
  case (Cons j js)
  let ?k = "fold (merge_pair ratio) (pairs_from (link1, i) [(link2, j)]) kws"
  obtain w where w: "compare_slots ratio link1 i str1 link2 j (kws, kw1) = (?k, w)"
    "slot_at ?k link1 i = Some (w, str1)"
    using compare_slots_merge_pair[OF Cons.prems] by blast
  obtain w' where w': "fold (compare_slots ratio link1 i str1 link2) js (?k, w) =
      (fold (merge_pair ratio) (pairs_from (link1, i) (map (Pair link2) js)) ?k, w')"
    "slot_at (fold (merge_pair ratio) (pairs_from (link1, i) (map (Pair link2) js)) ?k)
       link1 i = Some (w', str1)"
    using Cons.IH[OF w(2)] by blast
  have "pairs_from (link1, i) (map (Pair link2) (j # js)) =
      pairs_from (link1, i) [(link2, j)] @ pairs_from (link1, i) (map (Pair link2) js)"
    using pairs_from_Cons[of "(link1, i)" "(link2, j)" "map (Pair link2) js"] by simp
  then show ?case using w w' by simp
qed

lemma pairs_from_append: "pairs_from a (bs @ cs) = pairs_from a bs @ pairs_from a cs"
  by (simp add: pairs_from_def)

lemma loop_link2_merge_pair:
  assumes "slot_at kws link1 i = Some (kw1, str1)"
  shows "\<exists>kw1'. fold (loop_j ratio link1 i str1) ls (kws, kw1) =
           (fold (merge_pair ratio)
              (pairs_from (link1, i)
                 (concat (map (\<lambda>l. map (Pair l) [0..<klen kws l]) ls))) kws, kw1') \<and>
         slot_at (fold (merge_pair ratio)
              (pairs_from (link1, i)
                 (concat (map (\<lambda>l. map (Pair l) [0..<klen kws l]) ls))) kws) link1 i =
           Some (kw1', str1)"
  using assms
proof (induction ls arbitrary: kws kw1)
  case Nil
  then show ?case by (simp add: pairs_from_def)
next
  case (Cons l ls)
  let ?row = "pairs_from (link1, i) (map (Pair l) [0..<klen kws l])"
  let ?k = "fold (merge_pair ratio) ?row kws"
  obtain w where w: "loop_j ratio link1 i str1 l (kws, kw1) = (?k, w)"
    "slot_at ?k link1 i = Some (w, str1)"
    using loop_j_merge_pair[OF Cons.prems, of ratio l "[0..<klen kws l]"]
    by (auto simp: loop_j_def)
  have kl: "klen ?k l' = klen kws l'" for l'
    by (rule fold_merge_pair_frame(2))
  obtain w' where w': "fold (loop_j ratio link1 i str1) ls (?k, w) =
      (fold (merge_pair ratio)
         (pairs_from (link1, i) (concat (map (\<lambda>l. map (Pair l) [0..<klen kws l]) ls))) ?k, w')"
    "slot_at (fold (merge_pair ratio)
         (pairs_from (link1, i) (concat (map (\<lambda>l. map (Pair l) [0..<klen kws l]) ls))) ?k)
       link1 i = Some (w', str1)"
    using Cons.IH[OF w(2)] by (auto simp: kl)
  show ?case using w w' by (simp add: pairs_from_append)
qed

lemma visit_slot_merge_pair:
  assumes "i < klen kws link1"
  shows "visit_slot ratio link1 i kws =
     fold (merge_pair ratio) (pairs_from (link1, i) (slots kws)) kws"
proof -
  obtain kw1 str1 where s: "slot_at kws link1 i = Some (kw1, str1)"
    using slot_at_Some[OF assms] by fastforce
  show ?thesis
    using loop_link2_merge_pair[OF s, of ratio "map fst kws"] s
    by (auto simp: visit_slot_def loop_link2_def slots_def)
qed

lemma loop_i_merge_pair:
  assumes "\<forall>i \<in> set is. i < klen kws link1"
  shows "fold (visit_slot ratio link1) is kws =
     fold (merge_pair ratio)
       (concat (map (\<lambda>i. pairs_from (link1, i) (slots kws)) is)) kws"
  using assms
proof (induction "is" arbitrary: kws)
  case Nil
  then show ?case by simp
next
  case (Cons i "is")
  let ?k = "fold (merge_pair ratio) (pairs_from (link1, i) (slots kws)) kws"
  have v: "visit_slot ratio link1 i kws = ?k"
    using Cons.prems by (intro visit_slot_merge_pair) simp
  have "\<forall>i \<in> set is. i < klen ?k link1"
    using Cons.prems by (simp add: fold_merge_pair_frame)
  then have "fold (visit_slot ratio link1) is ?k =
     fold (merge_pair ratio) (concat (map (\<lambda>i. pairs_from (link1, i) (slots ?k)) is)) ?k"
    by (rule Cons.IH)
  then show ?case using v by (simp add: slots_fold_merge_pair)
qed

lemma merge_pass_merge_pair:
  "fold (loop_i ratio) ls kws =
     fold (merge_pair ratio)
       (concat (map (\<lambda>l. concat (map (\<lambda>i. pairs_from (l, i) (slots kws)) [0..<klen kws l])) ls))
       kws"
proof (induction ls arbitrary: kws)
  case Nil
  then show ?case by simp
next
  case (Cons l ls)
  let ?k = "fold (merge_pair ratio)
      (concat (map (\<lambda>i. pairs_from (l, i) (slots kws)) [0..<klen kws l])) kws"
  have v: "loop_i ratio l kws = ?k"
    unfolding loop_i_def by (rule loop_i_merge_pair) simp
  have "fold (loop_i ratio) ls ?k =
     fold (merge_pair ratio)
       (concat (map (\<lambda>l. concat (map (\<lambda>i. pairs_from (l, i) (slots ?k)) [0..<klen ?k l])) ls))
       ?k"
    by (rule Cons.IH)
  then show ?case using v by (simp add: slots_fold_merge_pair fold_merge_pair_frame)
qed

lemma merge_pass_slot_pairs:
  "merge_pass ratio kws = fold (merge_pair ratio) (slot_pairs kws) kws"
  unfolding merge_pass_def slot_pairs_def
  by (simp add: merge_pass_merge_pair slots_rows[of "\<lambda>a. pairs_from a (slots kws)"])

lemma merge_pair_effect:
  assumes "(link1, i) \<noteq> (link2, j)"
    and "slot_at kws link1 i = Some (kw1, str1)"
    and "slot_at kws link2 j = Some (kw2, str2)"
  shows "ratio kw1 kw2 > 88 \<Longrightarrow>
      merge_pair ratio ((link1, i), (link2, j)) kws =
        set_slot (set_slot kws link1 i (if length kw2 < length kw1 then kw2 else kw1, str1))
          link2 j (if length kw2 < length kw1 then kw2 else kw1, str2)"
    and "ratio kw1 kw2 \<le> 88 \<Longrightarrow> merge_pair ratio ((link1, i), (link2, j)) kws = kws"
  using assms by (simp_all add: merge_pair_def Let_def)

text \<open>
  Claim C1. The merge pass is the comparison \<open>merge_pair\<close> made for every ordered
  pair of distinct slots of the corpus, one after the other, each on the corpus as the
  comparisons before it have left it. The pairs are all pairs \<open>(a, b)\<close> of slots with
  \<open>a \<noteq> b\<close>, a slot being a position of a link that holds a keyword. One comparison
  of the slots \<open>(link1, i)\<close> and \<open>(link2, j)\<close>, holding the strings \<open>kw1\<close> and
  \<open>kw2\<close>: if the similarity ratio of \<open>kw1\<close> and \<open>kw2\<close> exceeds 88, both slots are
  rewritten to the shorter of the two strings, \<open>kw1\<close> when the lengths are equal, each
  slot keeps its own score, and no other slot changes; if the ratio is at most 88,
  nothing changes.
\<close>

theorem merge_comparison_rewrites_both_slots:
  "merge_pass ratio kws = fold (merge_pair ratio) (slot_pairs kws) kws \<and>
   ((a, b) \<in> set (slot_pairs kws) \<longleftrightarrow>
      a \<in> set (slots kws) \<and> b \<in> set (slots kws) \<and> a \<noteq> b) \<and>
   ((l, n) \<in> set (slots kws) \<longleftrightarrow> slot_at kws l n \<noteq> None) \<and>
   ((link1, i) \<noteq> (link2, j) \<and> slot_at k link1 i = Some (kw1, str1) \<and>
    slot_at k link2 j = Some (kw2, str2) \<longrightarrow>
      (ratio kw1 kw2 > 88 \<longrightarrow>
         (let c = (if length kw2 < length kw1 then kw2 else kw1);
              k' = merge_pair ratio ((link1, i), (link2, j)) k
          in slot_at k' link1 i = Some (c, str1) \<and>
             slot_at k' link2 j = Some (c, str2) \<and>
             (\<forall>l' n'. (l', n') \<noteq> (link1, i) \<and> (l', n') \<noteq> (link2, j) \<longrightarrow>
                    slot_at k' l' n' = slot_at k l' n'))) \<and>
      (ratio kw1 kw2 \<le> 88 \<longrightarrow> merge_pair ratio ((link1, i), (link2, j)) k = k))"
proof (intro conjI impI)
  show "merge_pass ratio kws = fold (merge_pair ratio) (slot_pairs kws) kws"
    by (rule merge_pass_slot_pairs)
next
  show "(a, b) \<in> set (slot_pairs kws) \<longleftrightarrow>
      a \<in> set (slots kws) \<and> b \<in> set (slots kws) \<and> a \<noteq> b"
    by (rule in_slot_pairs)
next
  show "(l, n) \<in> set (slots kws) \<longleftrightarrow> slot_at kws l n \<noteq> None"
    by (rule in_slots)
next
  assume h: "(link1, i) \<noteq> (link2, j) \<and> slot_at k link1 i = Some (kw1, str1) \<and>
    slot_at k link2 j = Some (kw2, str2)"
  then have ne: "(link1, i) \<noteq> (link2, j)" and s1: "slot_at k link1 i = Some (kw1, str1)"
    and s2: "slot_at k link2 j = Some (kw2, str2)"
    by simp_all
  note k1 = slot_at_klen[OF s1] and k2 = slot_at_klen[OF s2]
  {
    assume r: "ratio kw1 kw2 > 88"
    define c where "c = (if length kw2 < length kw1 then kw2 else kw1)"
    have "merge_pair ratio ((link1, i), (link2, j)) k =
        set_slot (set_slot k link1 i (c, str1)) link2 j (c, str2)"
      unfolding c_def using r by (rule merge_pair_effect(1)[OF ne s1 s2])
    then show "let c = (if length kw2 < length kw1 then kw2 else kw1);
              k' = merge_pair ratio ((link1, i), (link2, j)) k
          in slot_at k' link1 i = Some (c, str1) \<and>
             slot_at k' link2 j = Some (c, str2) \<and>
             (\<forall>l' n'. (l', n') \<noteq> (link1, i) \<and> (l', n') \<noteq> (link2, j) \<longrightarrow>
                    slot_at k' l' n' = slot_at k l' n')"
      using k1 k2 ne by (auto simp: Let_def c_def slot_at_set_slot klen_set_slot)
  next
    assume "ratio kw1 kw2 \<le> 88"
    then show "merge_pair ratio ((link1, i), (link2, j)) k = k"
      by (rule merge_pair_effect(2)[OF ne s1 s2])
  }
qed

theorem merge_comparison_rewrites_both_slots_witness:
  "slot_pairs kws_ex =
     [((''https://a.com/x'', 0), (''https://a.com/x'', 1)),
      ((''https://a.com/x'', 0), (''https://b.com/z'', 0)),
      ((''https://a.com/x'', 1), (''https://a.com/x'', 0)),
      ((''https://a.com/x'', 1), (''https://b.com/z'', 0)),
      ((''https://b.com/z'', 0), (''https://a.com/x'', 0)),
      ((''https://b.com/z'', 0), (''https://a.com/x'', 1))] \<and>
   fold (merge_pair ratio_ex) (slot_pairs kws_ex) kws_ex =
     [(''https://a.com/x'', [(''neural network'', 0.5), (''database index'', 0.4)]),
      (''https://b.com/z'', [(''neural network'', 0.7)])] \<and>
   merge_pass ratio_ex kws_dup =
     [(''https://a.com/x'',
       [(''neural network'', 0.5), (''database index'', 0.4), (''neural network'', 0.7)])] \<and>
   (''https://a.com/x'', 0::nat) \<noteq> (''https://b.com/z'', 0) \<and>
   slot_at kws_ex ''https://a.com/x'' 0 = Some (''neural networks'', 0.5) \<and>
   slot_at kws_ex ''https://b.com/z'' 0 = Some (''neural network'', 0.7) \<and>
   ratio_ex ''neural networks'' ''neural network'' > 88 \<and>
   slot_at (merge_pair ratio_ex ((''https://a.com/x'', 0), (''https://b.com/z'', 0)) kws_ex)
     ''https://a.com/x'' 0 = Some (''neural network'', 0.5) \<and>
   slot_at (merge_pair ratio_ex ((''https://a.com/x'', 0), (''https://b.com/z'', 0)) kws_ex)
     ''https://b.com/z'' 0 = Some (''neural network'', 0.7) \<and>
   slot_at (merge_pair ratio_ex ((''https://a.com/x'', 0), (''https://b.com/z'', 0)) kws_ex)
     ''https://a.com/x'' 1 = slot_at kws_ex ''https://a.com/x'' 1 \<and>
   slot_at kws_ex ''https://a.com/x'' 1 = Some (''database index'', 0.4) \<and>
   ratio_ex ''database index'' ''neural network'' \<le> 88 \<and>
   merge_pair ratio_ex ((''https://a.com/x'', 1), (''https://b.com/z'', 0)) kws_ex = kws_ex"
proof -
  have ne: "(''https://a.com/x'', 0::nat) \<noteq> (''https://b.com/z'', 0)"
    and ne': "(''https://a.com/x'', 1::nat) \<noteq> (''https://b.com/z'', 0)"
    and o1: "(''https://a.com/x'', 1::nat) \<noteq> (''https://a.com/x'', 0)"
    and o2: "(''https://a.com/x'', 1::nat) \<noteq> (''https://b.com/z'', 0)"
    by simp_all
  have a0: "slot_at kws_ex ''https://a.com/x'' 0 = Some (''neural networks'', 0.5)"
    and a1: "slot_at kws_ex ''https://a.com/x'' 1 = Some (''database index'', 0.4)"
    and b0: "slot_at kws_ex ''https://b.com/z'' 0 = Some (''neural network'', 0.7)"
    by (simp_all add: slot_at_def kws_ex_def)
  have hi: "ratio_ex ''neural networks'' ''neural network'' > 88"
    and lo: "ratio_ex ''database index'' ''neural network'' \<le> 88"
    by (simp_all add: ratio_ex_def)
  have ps: "slot_pairs kws_ex =
     [((''https://a.com/x'', 0), (''https://a.com/x'', 1)),
      ((''https://a.com/x'', 0), (''https://b.com/z'', 0)),
      ((''https://a.com/x'', 1), (''https://a.com/x'', 0)),
      ((''https://a.com/x'', 1), (''https://b.com/z'', 0)),
      ((''https://b.com/z'', 0), (''https://a.com/x'', 0)),
      ((''https://b.com/z'', 0), (''https://a.com/x'', 1))]"
    by code_simp
  have mp: "merge_pass ratio_ex kws_ex =
     [(''https://a.com/x'', [(''neural network'', 0.5), (''database index'', 0.4)]),
      (''https://b.com/z'', [(''neural network'', 0.7)])]"
    by code_simp
  have md: "merge_pass ratio_ex kws_dup =
     [(''https://a.com/x'',
       [(''neural network'', 0.5), (''database index'', 0.4), (''neural network'', 0.7)])]"
    by code_simp
  note t1 = merge_comparison_rewrites_both_slots[where ratio = ratio_ex and kws = kws_ex
      and k = kws_ex and ?link1.0 = "''https://a.com/x''" and i = 0
      and ?link2.0 = "''https://b.com/z''" and j = 0 and ?kw1.0 = "''neural networks''"
      and ?str1.0 = "0.5" and ?kw2.0 = "''neural network''" and ?str2.0 = "0.7"]
  note t2 = merge_comparison_rewrites_both_slots[where ratio = ratio_ex and kws = kws_ex
      and k = kws_ex and ?link1.0 = "''https://a.com/x''" and i = 1
      and ?link2.0 = "''https://b.com/z''" and j = 0 and ?kw1.0 = "''database index''"
      and ?str1.0 = "0.4" and ?kw2.0 = "''neural network''" and ?str2.0 = "0.7"]
  have fo: "fold (merge_pair ratio_ex) (slot_pairs kws_ex) kws_ex =
     [(''https://a.com/x'', [(''neural network'', 0.5), (''database index'', 0.4)]),
      (''https://b.com/z'', [(''neural network'', 0.7)])]"
    using t1[THEN conjunct1] mp by simp
  let ?k = "merge_pair ratio_ex ((''https://a.com/x'', 0), (''https://b.com/z'', 0)) kws_ex"
  have e1: "slot_at ?k ''https://a.com/x'' 0 = Some (''neural network'', 0.5) \<and>
      slot_at ?k ''https://b.com/z'' 0 = Some (''neural network'', 0.7) \<and>
      (\<forall>l' n'. (l', n') \<noteq> (''https://a.com/x'', 0) \<and> (l', n') \<noteq> (''https://b.com/z'', 0) \<longrightarrow>
          slot_at ?k l' n' = slot_at kws_ex l' n')"
    using t1[THEN conjunct2, THEN conjunct2, THEN conjunct2] ne a0 b0 hi
    by (simp add: Let_def)
  have e2: "slot_at ?k ''https://a.com/x'' 1 = slot_at kws_ex ''https://a.com/x'' 1"
    using e1 o1 o2 by blast
  have e3: "merge_pair ratio_ex ((''https://a.com/x'', 1), (''https://b.com/z'', 0)) kws_ex = kws_ex"
    using t2[THEN conjunct2, THEN conjunct2, THEN conjunct2] ne' a1 b0 lo by simp
  show ?thesis
    using ps fo md ne a0 a1 b0 hi lo e1 e2 e3 by simp
qed

text \<open>
  Claim C7. For every link, the final keyword list has no string twice, is no longer
  than the raw KeywordSet of the link, and its elements are exactly the strings that
  the slots of this link hold after the merge pass: slot by slot the raw list, with
  the same scores and possibly rewritten strings. Every such string is a raw keyword
  string of the corpus. Nothing is said of the order of the final list.
\<close>

theorem final_keywords_reduced:
  assumes "map_of kws link = Some raw"
  shows "\<exists>final merged.
           map_of (snd (simplify_keywords ratio kws)) link = Some final \<and>
           map_of (fst (simplify_keywords ratio kws)) link = Some merged \<and>
           distinct final \<and>
           length final \<le> length raw \<and>
           length merged = length raw \<and> map snd merged = map snd raw \<and>
           set final = fst ` set merged \<and>
           set final \<subseteq> corpus_strings kws"
proof -
  let ?m = "merge_pass ratio kws"
  have inv: "same_frame kws ?m" "strings_in (corpus_strings kws) ?m"
    using merge_pass_outer_inv[of _ ratio] by (simp_all add: outer_inv_def)
  obtain merged where m: "map_of ?m link = Some merged" "length merged = length raw"
      "map snd merged = map snd raw"
    using same_frame_lookup[OF inv(1) assms] by blast
  let ?f = "remdups (map fst merged)"
  have "map_of (snd (simplify_keywords ratio kws)) link = Some ?f"
    using m(1) by (simp add: simplify_keywords_def Let_def map_of_drop_strength)
  moreover have "map_of (fst (simplify_keywords ratio kws)) link = Some merged"
    using m(1) by (simp add: simplify_keywords_def Let_def)
  moreover have "distinct ?f" by simp
  moreover have "length ?f \<le> length raw"
    using length_remdups_leq[of "map fst merged"] m(2) by simp
  moreover have "set ?f = fst ` set merged" by simp
  moreover have "set ?f \<subseteq> corpus_strings kws"
    using strings_in_lookup[OF inv(2) m(1)] by simp
  ultimately show ?thesis using m by blast
qed

theorem final_keywords_reduced_witness:
  "map_of kws_dup ''https://a.com/x'' =
     Some [(''neural networks'', 0.5), (''database index'', 0.4), (''neural network'', 0.7)] \<and>
   (\<exists>final merged.
      map_of (snd (simplify_keywords ratio_ex kws_dup)) ''https://a.com/x'' = Some final \<and>
      map_of (fst (simplify_keywords ratio_ex kws_dup)) ''https://a.com/x'' = Some merged \<and>
      merged = [(''neural network'', 0.5), (''database index'', 0.4), (''neural network'', 0.7)] \<and>
      distinct final \<and> length final = 2 \<and>
      set final = {''neural network'', ''database index''} \<and>
      set final \<subseteq> corpus_strings kws_dup)"
proof -
  have raw: "map_of kws_dup ''https://a.com/x'' =
      Some [(''neural networks'', 0.5), (''database index'', 0.4), (''neural network'', 0.7)]"
    by (simp add: kws_dup_def)
  have val: "map_of (fst (simplify_keywords ratio_ex kws_dup)) ''https://a.com/x'' =
      Some [(''neural network'', 0.5), (''database index'', 0.4), (''neural network'', 0.7)]"
    by code_simp
  obtain final merged where f:
    "map_of (snd (simplify_keywords ratio_ex kws_dup)) ''https://a.com/x'' = Some final"
    "map_of (fst (simplify_keywords ratio_ex kws_dup)) ''https://a.com/x'' = Some merged"
    "distinct final" "set final = fst ` set merged" "set final \<subseteq> corpus_strings kws_dup"
    using final_keywords_reduced[OF raw, of ratio_ex] by blast
  have m: "merged = [(''neural network'', 0.5), (''database index'', 0.4), (''neural network'', 0.7)]"
    using f(2) val by simp
  have s: "set final = {''neural network'', ''database index''}"
    using f(4) unfolding m by auto
  have "card (set final) = 2"
    unfolding s by simp
  then have l: "length final = 2"
    using f(3) by (simp add: distinct_card)
  show ?thesis
    using raw f(1,2,3,5) m s l by blast
qed

text \<open>
  Claim C10. \<^verbatim>\<open>simplify_keywords\<close> changes its argument: after the call the list that
  the argument holds for a link has the scores of the raw list and the strings of the
  merge pass, and the returned list of the link is made of the strings that the
  argument holds now. In the example the argument holds \<^verbatim>\<open>neural network\<close> where it
  held \<^verbatim>\<open>neural networks\<close> before the call.
\<close>

theorem simplify_keywords_rewrites_argument:
  assumes "map_of kws link = Some raw"
  shows "\<exists>merged.
           map_of (fst (simplify_keywords ratio kws)) link = Some merged \<and>
           map fst (fst (simplify_keywords ratio kws)) = map fst kws \<and>
           map snd merged = map snd raw \<and>
           (\<forall>i < length raw. slot_at (merge_pass ratio kws) link i = Some (merged ! i)) \<and>
           map_of (snd (simplify_keywords ratio kws)) link = Some (remdups (map fst merged))"
proof -
  let ?m = "merge_pass ratio kws"
  have fr: "same_frame kws ?m"
    using merge_pass_outer_inv[of kws ratio] by (simp add: outer_inv_def)
  obtain merged where m: "map_of ?m link = Some merged" "length merged = length raw"
      "map snd merged = map snd raw"
    using same_frame_lookup[OF fr assms] by blast
  have "map fst ?m = map fst kws"
    using fr by (simp add: same_frame_def)
  moreover have "\<forall>i < length raw. slot_at ?m link i = Some (merged ! i)"
    using m by (simp add: slot_at_def)
  ultimately show ?thesis
    using m by (simp add: simplify_keywords_def Let_def map_of_drop_strength)
qed

theorem simplify_keywords_rewrites_argument_witness:
  "map_of kws_ex ''https://a.com/x'' = Some [(''neural networks'', 0.5), (''database index'', 0.4)] \<and>
   fst (simplify_keywords ratio_ex kws_ex) =
     [(''https://a.com/x'', [(''neural network'', 0.5), (''database index'', 0.4)]),
      (''https://b.com/z'', [(''neural network'', 0.7)])] \<and>
   fst (simplify_keywords ratio_ex kws_ex) \<noteq> kws_ex \<and>
   (\<exists>merged.
      map_of (fst (simplify_keywords ratio_ex kws_ex)) ''https://a.com/x'' = Some merged \<and>
      map snd merged = [0.5, 0.4] \<and>
      map_of (snd (simplify_keywords ratio_ex kws_ex)) ''https://a.com/x'' =
        Some (remdups (map fst merged)))"
proof -
  have raw: "map_of kws_ex ''https://a.com/x'' =
      Some [(''neural networks'', 0.5), (''database index'', 0.4)]"
    by (simp add: kws_ex_def)
  have val: "fst (simplify_keywords ratio_ex kws_ex) =
     [(''https://a.com/x'', [(''neural network'', 0.5), (''database index'', 0.4)]),
      (''https://b.com/z'', [(''neural network'', 0.7)])]"
    by code_simp
  have ne: "fst (simplify_keywords ratio_ex kws_ex) \<noteq> kws_ex"
    unfolding val by (simp add: kws_ex_def)
  show ?thesis
    using raw val ne simplify_keywords_rewrites_argument[OF raw, of ratio_ex] by auto
qed

section \<open>Properties of \<^verbatim>\<open>get_content\<close>\<close>

text \<open>
  Claim C4. For every page that was fetched (the request succeeded, the status is no
  error, and readability produced a summary): if the extracted plain text has fewer
  than 500 characters, \<^verbatim>\<open>get_content\<close> returns what \<^verbatim>\<open>doc.title()\<close> gives; if it has
  500 characters or more, \<^verbatim>\<open>get_content\<close> returns the text itself.
\<close>

theorem get_content_fallback:
  assumes "requests_get env link = Inr response"
    and "raise_for_status response = Inr ()"
    and "doc_summary env (content response) = Inr html"
  shows "(length (soup_text env html) < 500 \<longrightarrow>
            get_content env link = doc_title env (content response)) \<and>
         (length (soup_text env html) \<ge> 500 \<longrightarrow>
            get_content env link = Inr (soup_text env html))"
  using assms by (simp add: get_content_def Let_def)

theorem get_content_fallback_witness:
  "requests_get env_ex ''https://a.com/y'' = Inr \<lparr>status_code = 200, content = ''short page''\<rparr> \<and>
   length (soup_text env_ex ''short page'') < 500 \<and>
   get_content env_ex ''https://a.com/y'' = Inr ''A title'' \<and>
   requests_get env_ex ''https://a.com/x'' = Inr \<lparr>status_code = 200, content = long_text\<rparr> \<and>
   length (soup_text env_ex long_text) \<ge> 500 \<and>
   get_content env_ex ''https://a.com/x'' = Inr long_text"
proof -
  have g1: "requests_get env_ex ''https://a.com/y'' = Inr \<lparr>status_code = 200, content = ''short page''\<rparr>"
    and g2: "requests_get env_ex ''https://a.com/x'' = Inr \<lparr>status_code = 200, content = long_text\<rparr>"
    by (simp_all add: env_ex_def)
  have r1: "raise_for_status \<lparr>status_code = 200, content = ''short page''\<rparr> = Inr ()"
    and r2: "raise_for_status \<lparr>status_code = 200, content = long_text\<rparr> = Inr ()"
    by (simp_all add: raise_for_status_def)
  have s1: "doc_summary env_ex (content \<lparr>status_code = 200, content = ''short page''\<rparr>) = Inr ''short page''"
    and s2: "doc_summary env_ex (content \<lparr>status_code = 200, content = long_text\<rparr>) = Inr long_text"
    by (simp_all add: env_ex_def)
  have l1: "length (soup_text env_ex ''short page'') < 500"
    and l2: "length (soup_text env_ex long_text) \<ge> 500"
    by (simp_all add: env_ex_def long_text_def)
  have t: "doc_title env_ex ''short page'' = Inr ''A title''"
    and u: "soup_text env_ex long_text = long_text"
    by (simp_all add: env_ex_def)
  show ?thesis
    using get_content_fallback[OF g1 r1 s1] get_content_fallback[OF g2 r2 s2] g1 g2 l1 l2 t u
    by simp
qed

section \<open>Properties of \<^verbatim>\<open>group_links_by_domain\<close>\<close>

lemma takeWhile_no_slash:
  assumes "CHR ''/'' \<notin> set d" "rest = [] \<or> hd rest = CHR ''/''"
  shows "takeWhile (\<lambda>c. c \<noteq> CHR ''/'') (d @ rest) = d"
proof (cases rest)
  case Nil
  then show ?thesis using assms(1) by (auto simp: takeWhile_eq_all_conv)
next
  case (Cons c cs)
  then have "c = CHR ''/''" using assms(2) by simp
  then show ?thesis using assms(1) Cons by (auto simp: takeWhile_tail)
qed

lemma match_domain_shape:
  "match_domain link = Some d \<longleftrightarrow>
     (\<exists>scheme rest. (scheme = ''https://'' \<or> scheme = ''http://'') \<and>
        link = scheme @ d @ rest \<and> d \<noteq> [] \<and> CHR ''/'' \<notin> set d \<and>
        (rest = [] \<or> hd rest = CHR ''/''))"
proof
  assume m: "match_domain link = Some d"
  have "\<exists>scheme r. (scheme = ''https://'' \<or> scheme = ''http://'') \<and> link = scheme @ r \<and>
          d = takeWhile (\<lambda>c. c \<noteq> CHR ''/'') r \<and> d \<noteq> []"
  proof (cases "take 8 link = ''https://''")
    case True
    then have "link = ''https://'' @ drop 8 link"
      by (metis append_take_drop_id)
    moreover have "d = takeWhile (\<lambda>c. c \<noteq> CHR ''/'') (drop 8 link) \<and> d \<noteq> []"
      using m True by (auto simp: match_domain_def Let_def split: if_splits)
    ultimately show ?thesis by blast
  next
    case False
    then have t7: "take 7 link = ''http://''"
      using m by (auto simp: match_domain_def split: if_splits)
    then have "link = ''http://'' @ drop 7 link"
      by (metis append_take_drop_id)
    moreover have "d = takeWhile (\<lambda>c. c \<noteq> CHR ''/'') (drop 7 link) \<and> d \<noteq> []"
      using m False t7 by (auto simp: match_domain_def Let_def split: if_splits)
    ultimately show ?thesis by blast
  qed
  then obtain scheme r where sch: "scheme = ''https://'' \<or> scheme = ''http://''"
    and lr: "link = scheme @ r" and d: "d = takeWhile (\<lambda>c. c \<noteq> CHR ''/'') r" "d \<noteq> []"
    by blast
  let ?rest = "dropWhile (\<lambda>c. c \<noteq> CHR ''/'') r"
  have "link = scheme @ d @ ?rest" by (simp add: d lr)
  moreover have "CHR ''/'' \<notin> set d"
    using d(1) by (metis (mono_tags, lifting) set_takeWhileD)
  moreover have "?rest = [] \<or> hd ?rest = CHR ''/''"
    using hd_dropWhile[of "\<lambda>c. c \<noteq> CHR ''/''" r] by auto
  ultimately show "\<exists>scheme rest. (scheme = ''https://'' \<or> scheme = ''http://'') \<and>
        link = scheme @ d @ rest \<and> d \<noteq> [] \<and> CHR ''/'' \<notin> set d \<and>
        (rest = [] \<or> hd rest = CHR ''/'')"
    using sch d(2) by blast
next
  assume "\<exists>scheme rest. (scheme = ''https://'' \<or> scheme = ''http://'') \<and>
        link = scheme @ d @ rest \<and> d \<noteq> [] \<and> CHR ''/'' \<notin> set d \<and>
        (rest = [] \<or> hd rest = CHR ''/'')"
  then obtain scheme rest where sch: "scheme = ''https://'' \<or> scheme = ''http://''"
    and l: "link = scheme @ d @ rest" and d: "d \<noteq> []" "CHR ''/'' \<notin> set d"
    and r: "rest = [] \<or> hd rest = CHR ''/''"
    by blast
  have tw: "takeWhile (\<lambda>c. c \<noteq> CHR ''/'') (d @ rest) = d"
    using d(2) r by (rule takeWhile_no_slash)
  from sch show "match_domain link = Some d"
  proof
    assume "scheme = ''https://''"
    then show ?thesis using tw d(1) by (simp add: match_domain_def l Let_def)
  next
    assume "scheme = ''http://''"
    then show ?thesis using tw d(1) by (simp add: match_domain_def l Let_def)
  qed
qed

lemma dict_append_keys:
  "map fst (dict_append d k x) = (if k \<in> set (map fst d) then map fst d else map fst d @ [k])"
  by (induction d) force+

lemma map_of_dict_append:
  "map_of (dict_append d k x) k' =
     (if k' = k then Some ((case map_of d k of None \<Rightarrow> [] | Some xs \<Rightarrow> xs) @ [x])
      else map_of d k')"
  by (induction d) auto

lemma filter_first_seen: "filter (\<lambda>y. y \<noteq> a) (first_seen zs) = first_seen (filter (\<lambda>y. y \<noteq> a) zs)"
proof (induction zs)
  case Nil
  then show ?case by simp
next
  case (Cons z zs)
  show ?case
  proof (cases "z = a")
    case True
    have "filter (\<lambda>y. y \<noteq> a) (first_seen (z # zs)) =
          filter (\<lambda>y. y \<noteq> a) (filter (\<lambda>y. y \<noteq> a) (first_seen zs))"
      using True by simp
    also have "\<dots> = filter (\<lambda>y. y \<noteq> a) (first_seen zs)"
      by simp
    also have "\<dots> = first_seen (filter (\<lambda>y. y \<noteq> a) zs)"
      by (rule Cons.IH)
    finally have l: "filter (\<lambda>y. y \<noteq> a) (first_seen (z # zs)) =
        first_seen (filter (\<lambda>y. y \<noteq> a) zs)" .
    have r: "filter (\<lambda>y. y \<noteq> a) (z # zs) = filter (\<lambda>y. y \<noteq> a) zs"
      using True by simp
    show ?thesis unfolding r by (rule l)
  next
    case False
    have "filter (\<lambda>y. y \<noteq> a) (filter (\<lambda>y. y \<noteq> z) (first_seen zs)) =
          filter (\<lambda>y. y \<noteq> z) (filter (\<lambda>y. y \<noteq> a) (first_seen zs))"
      by (simp add: conj_commute)
    then show ?thesis using False Cons by simp
  qed
qed

lemma first_seen_repeat:
  "x \<in> set xs \<Longrightarrow> first_seen (xs @ x # ys) = first_seen (xs @ ys)"
proof (induction xs)
  case Nil
  then show ?case by simp
next
  case (Cons a xs)
  show ?case
  proof (cases "a = x")
    case True
    then show ?thesis by (simp add: filter_first_seen)
  next
    case False
    then show ?thesis using Cons by simp
  qed
qed

lemma first_seen_distinct: "distinct xs \<Longrightarrow> first_seen xs = xs"
  by (induction xs) (auto simp: filter_first_seen filter_id_conv)

lemma distinct_first_seen: "distinct (first_seen xs)"
  by (induction xs) auto

lemma set_first_seen: "set (first_seen xs) = set xs"
  by (induction xs) auto

lemma group_loop_ok:
  assumes "\<forall>l \<in> set ls. match_domain l \<noteq> None"
  shows "group_loop ls acc = Inr (fold (\<lambda>l d. dict_append d (domain_of l) l) ls acc)"
  using assms by (induction ls arbitrary: acc) (auto simp: domain_of_def)

lemma group_loop_fail:
  assumes "\<exists>l \<in> set ls. match_domain l = None"
  shows "group_loop ls acc = Inl MalformedURLError"
  using assms by (induction ls arbitrary: acc) (auto split: option.splits)

lemma fold_append_keys:
  "map fst (fold (\<lambda>l d. dict_append d (f l) l) ls acc) = first_seen (map fst acc @ map f ls)"
  if "distinct (map fst acc)"
  using that
proof (induction ls arbitrary: acc)
  case Nil
  then show ?case by (simp add: first_seen_distinct)
next
  case (Cons l ls)
  let ?acc = "dict_append acc (f l) l"
  have d: "distinct (map fst ?acc)"
    using Cons.prems by (simp add: dict_append_keys)
  show ?case
  proof (cases "f l \<in> set (map fst acc)")
    case True
    then show ?thesis
      using Cons.IH[OF d] first_seen_repeat[of "f l" "map fst acc" "map f ls"]
      by (simp add: dict_append_keys)
  next
    case False
    then show ?thesis
      using Cons.IH[OF d] by (simp add: dict_append_keys)
  qed
qed

lemma fold_append_buckets:
  "map_of (fold (\<lambda>l d. dict_append d (f l) l) ls acc) k =
     (if filter (\<lambda>l. f l = k) ls = [] then map_of acc k
      else Some ((case map_of acc k of None \<Rightarrow> [] | Some xs \<Rightarrow> xs) @ filter (\<lambda>l. f l = k) ls))"
proof (induction ls arbitrary: acc)
  case Nil
  then show ?case by simp
next
  case (Cons l ls)
  show ?case
    by (simp add: Cons.IH map_of_dict_append)
qed

text \<open>
  Claim C5, as the code has it. A link is mapped to what the pattern
  \<^verbatim>\<open>https?://([^/]+)\<close> captures: the link is \<^verbatim>\<open>http://\<close> or \<^verbatim>\<open>https://\<close>, then the
  captured text, which is not empty and has no \<^verbatim>\<open>/\<close>, then nothing or a rest that
  starts with \<^verbatim>\<open>/\<close>. The captured text is everything up to the first \<^verbatim>\<open>/\<close>: the host
  of a link \<^verbatim>\<open>http(s)://host/...\<close>, and with it the user information, the port, and
  a query or fragment that comes before any \<^verbatim>\<open>/\<close>. If some link does not match,
  grouping fails with \<open>MalformedURLError\<close>. If all links match, the keys of the
  result are in the order in which they are first seen, and the bucket of a key
  holds the links with that captured text in their original order.
\<close>

theorem group_links_by_domain_buckets:
  "(match_domain link = Some d \<longleftrightarrow>
      (\<exists>scheme rest. (scheme = ''https://'' \<or> scheme = ''http://'') \<and>
         link = scheme @ d @ rest \<and> d \<noteq> [] \<and> CHR ''/'' \<notin> set d \<and>
         (rest = [] \<or> hd rest = CHR ''/''))) \<and>
   ((\<exists>l \<in> set (map snd links). match_domain l = None) \<longrightarrow>
      group_links_by_domain links = Inl MalformedURLError) \<and>
   ((\<forall>l \<in> set (map snd links). match_domain l \<noteq> None) \<longrightarrow>
      (\<exists>r. group_links_by_domain links = Inr r \<and>
           map fst r = first_seen (map domain_of (map snd links)) \<and>
           (\<forall>(dom, bucket) \<in> set r.
              bucket = filter (\<lambda>l. match_domain l = Some dom) (map snd links))))"
proof (intro conjI impI)
  show "match_domain link = Some d \<longleftrightarrow>
      (\<exists>scheme rest. (scheme = ''https://'' \<or> scheme = ''http://'') \<and>
         link = scheme @ d @ rest \<and> d \<noteq> [] \<and> CHR ''/'' \<notin> set d \<and>
         (rest = [] \<or> hd rest = CHR ''/''))"
    by (rule match_domain_shape)
next
  assume "\<exists>l \<in> set (map snd links). match_domain l = None"
  then show "group_links_by_domain links = Inl MalformedURLError"
    unfolding group_links_by_domain_def by (rule group_loop_fail)
next
  let ?ls = "map snd links"
  let ?r = "fold (\<lambda>l d. dict_append d (domain_of l) l) ?ls []"
  assume ok: "\<forall>l \<in> set ?ls. match_domain l \<noteq> None"
  have r: "group_links_by_domain links = Inr ?r"
    unfolding group_links_by_domain_def by (rule group_loop_ok[OF ok])
  have keys: "map fst ?r = first_seen (map domain_of ?ls)"
    using fold_append_keys[of "[]" domain_of ?ls] by simp
  have "bucket = filter (\<lambda>l. match_domain l = Some dom) ?ls"
    if "(dom, bucket) \<in> set ?r" for dom bucket
  proof -
    have "distinct (map fst ?r)"
      unfolding keys by (rule distinct_first_seen)
    then have "map_of ?r dom = Some bucket"
      using that by simp
    then have b: "bucket = filter (\<lambda>l. domain_of l = dom) ?ls"
      using fold_append_buckets[of domain_of ?ls "[]" dom] by (simp split: if_splits)
    have "filter (\<lambda>l. domain_of l = dom) ?ls = filter (\<lambda>l. match_domain l = Some dom) ?ls"
      using ok by (intro filter_cong) (auto simp: domain_of_def)
    then show ?thesis using b by simp
  qed
  then show "\<exists>r. group_links_by_domain links = Inr r \<and>
           map fst r = first_seen (map domain_of (map snd links)) \<and>
           (\<forall>(dom, bucket) \<in> set r.
              bucket = filter (\<lambda>l. match_domain l = Some dom) (map snd links))"
    using r keys by auto
qed

theorem group_links_by_domain_buckets_witness:
  "match_domain ''https://a.com/x'' = Some ''a.com'' \<and>
   match_domain ''https://a.com/y'' = Some ''a.com'' \<and>
   match_domain ''https://b.com/z'' = Some ''b.com'' \<and>
   match_domain ''ftp://c.org/w'' = None \<and>
   (\<exists>scheme rest. (scheme = ''https://'' \<or> scheme = ''http://'') \<and>
      ''https://a.com/x'' = scheme @ ''a.com'' @ rest \<and> (rest = [] \<or> hd rest = CHR ''/'')) \<and>
   group_links_by_domain links_ex =
     Inr [(''a.com'', [''https://a.com/x'', ''https://a.com/y'']),
          (''b.com'', [''https://b.com/z''])] \<and>
   (\<exists>r. group_links_by_domain links_ex = Inr r \<and>
        map fst r = first_seen (map domain_of (map snd links_ex))) \<and>
   group_links_by_domain (links_ex @ [(''W'', ''ftp://c.org/w'')]) = Inl MalformedURLError"
proof -
  have m: "match_domain ''https://a.com/x'' = Some ''a.com''"
    "match_domain ''https://a.com/y'' = Some ''a.com''"
    "match_domain ''https://b.com/z'' = Some ''b.com''"
    "match_domain ''ftp://c.org/w'' = None"
    by code_simp+
  have ok: "\<forall>l \<in> set (map snd links_ex). match_domain l \<noteq> None"
    using m by (simp add: links_ex_def)
  have val: "group_links_by_domain links_ex =
     Inr [(''a.com'', [''https://a.com/x'', ''https://a.com/y'']),
          (''b.com'', [''https://b.com/z''])]"
    by code_simp
  have bad: "\<exists>l \<in> set (map snd (links_ex @ [(''W'', ''ftp://c.org/w'')])). match_domain l = None"
    using m by simp
  note a = group_links_by_domain_buckets[of "''https://a.com/x''" "''a.com''" links_ex]
  note b = group_links_by_domain_buckets[of "''https://a.com/x''" "''a.com''"
      "links_ex @ [(''W'', ''ftp://c.org/w'')]"]
  have shape: "\<exists>scheme rest. (scheme = ''https://'' \<or> scheme = ''http://'') \<and>
      ''https://a.com/x'' = scheme @ ''a.com'' @ rest \<and> (rest = [] \<or> hd rest = CHR ''/'')"
    using a m(1) by blast
  have keys: "\<exists>r. group_links_by_domain links_ex = Inr r \<and>
        map fst r = first_seen (map domain_of (map snd links_ex))"
    using a ok by blast
  have fails: "group_links_by_domain (links_ex @ [(''W'', ''ftp://c.org/w'')]) = Inl MalformedURLError"
    using b bad by blast
  show ?thesis
    using m shape val keys fails by blast
qed

text \<open>
  The captured text is not the host component. The query of \<^verbatim>\<open>https://a.com?q=1\<close>
  is not discarded, the key of \<^verbatim>\<open>https://user:pw@a.com:8080/x\<close> holds the user
  information and the port, and three links of the host \<^verbatim>\<open>a.com\<close> go to three
  buckets.
\<close>

theorem group_key_is_not_host_counterexample:
  "match_domain ''https://a.com?q=1'' = Some ''a.com?q=1'' \<and>
   match_domain ''https://user:pw@a.com:8080/x'' = Some ''user:pw@a.com:8080'' \<and>
   group_links_by_domain
     [(''A'', ''https://a.com/x''), (''B'', ''https://a.com?q=1''),
      (''C'', ''https://a.com:8080/y'')] =
     Inr [(''a.com'', [''https://a.com/x'']),
          (''a.com?q=1'', [''https://a.com?q=1'']),
          (''a.com:8080'', [''https://a.com:8080/y''])]"
proof -
  have a: "match_domain ''https://a.com?q=1'' = Some ''a.com?q=1''"
    by code_simp
  have b: "match_domain ''https://user:pw@a.com:8080/x'' = Some ''user:pw@a.com:8080''"
    by code_simp
  have c: "group_links_by_domain
     [(''A'', ''https://a.com/x''), (''B'', ''https://a.com?q=1''),
      (''C'', ''https://a.com:8080/y'')] =
     Inr [(''a.com'', [''https://a.com/x'']),
          (''a.com?q=1'', [''https://a.com?q=1'']),
          (''a.com:8080'', [''https://a.com:8080/y''])]"
    by code_simp
  show ?thesis using a b c by simp
qed

section \<open>Properties of the cache files\<close>

lemma insort_key_map_snd:
  "insort_key fst (k, f v) (map (\<lambda>(k, v). (k, f v)) xs) =
   map (\<lambda>(k, v). (k, f v)) (insort_key fst (k, v) xs)"
  by (induction xs) auto

lemma sort_key_map_snd:
  "sort_key fst (map (\<lambda>(k, v). (k, f v)) xs) = map (\<lambda>(k, v). (k, f v)) (sort_key fst xs)"
  by (induction xs) (auto simp: insort_key_map_snd)

lemma decode_members_encoded:
  assumes "\<And>v. dec (enc v) = Some v"
  shows "decode_members dec (map (\<lambda>(k, v). (k, enc v)) xs) = Some xs"
  by (induction xs) (auto simp: assms)

lemma dict_set_new: "k \<notin> set (map fst d) \<Longrightarrow> dict_set d k v = d @ [(k, v)]"
  by (induction d) auto

lemma dict_update_distinct:
  "distinct (map fst (d @ ps)) \<Longrightarrow> dict_update d ps = d @ ps"
proof (induction ps arbitrary: d)
  case Nil
  then show ?case by (simp add: dict_update_def)
next
  case (Cons p ps)
  obtain k v where p: "p = (k, v)" by (cases p)
  have "k \<notin> set (map fst d)" using Cons.prems p by auto
  then have "dict_set d k v = d @ [(k, v)]" by (rule dict_set_new)
  moreover have "distinct (map fst ((d @ [(k, v)]) @ ps))" using Cons.prems p by simp
  ultimately show ?case
    using Cons.IH[of "d @ [(k, v)]"] p by (simp add: dict_update_def)
qed

lemma map_fst_insort_key: "map fst (insort_key fst x xs) = insort (fst x) (map fst xs)"
  by (induction xs) auto

lemma map_fst_sort_key: "map fst (sort_key fst xs) = sort (map fst xs)"
  by (induction xs) (auto simp: map_fst_insort_key)

lemma map_of_sort_key:
  assumes "distinct (map fst xs)"
  shows "map_of (sort_key fst xs) = map_of xs"
proof -
  have "distinct (map fst (sort_key fst xs))"
    using assms by (simp add: map_fst_sort_key)
  then show ?thesis
    using assms by (intro map_of_inject_set[THEN iffD2]) simp_all
qed

lemma map_fst_encoded: "map fst (map (\<lambda>(k, v). (k, enc v)) xs) = map fst xs"
  by (induction xs) auto

lemma loads_dumps:
  assumes "distinct (map fst d)" "\<And>v. dec (enc v) = Some v"
  shows "loads_dict dec (dumps_sorted enc d) = Inr (sort_key fst d)"
proof -
  have dist: "distinct (map fst (sort_key fst d))"
    using assms(1) by (simp add: map_fst_sort_key)
  have "distinct (map fst (map (\<lambda>(k, v). (k, enc v)) (sort_key fst d)))"
    using dist by (simp only: map_fst_encoded)
  then have "dict_update [] (map (\<lambda>(k, v). (k, enc v)) (sort_key fst d)) =
      map (\<lambda>(k, v). (k, enc v)) (sort_key fst d)"
    using dict_update_distinct[of "[]" "map (\<lambda>(k, v). (k, enc v)) (sort_key fst d)"] by simp
  then show ?thesis
    by (simp add: loads_dict_def typed_dict_def dumps_sorted_def sort_key_map_snd
        decode_members_encoded[where dec = dec and enc = enc, OF assms(2)])
qed

text \<open>
  Claim C6. Writing a mapping with \<^verbatim>\<open>update_content_cache\<close> and loading it again
  gives a dictionary with the same keys and values (as a \<^verbatim>\<open>manager.dict()\<close>);
  loading when the file does not exist gives the empty dictionary; the file written
  is one JSON object with all entries of the mapping, its keys sorted, and no other
  file changes. Python dictionaries have distinct keys, hence the hypothesis.
\<close>

theorem content_cache_round_trip:
  "(distinct (map fst cache) \<longrightarrow>
      (\<exists>d. load_content_cache (update_content_cache cache fs) = Inr (True, d) \<and>
           map_of d = map_of cache \<and> distinct (map fst d))) \<and>
   (fs ''content_cache.txt'' = None \<longrightarrow> load_content_cache fs = Inr (False, [])) \<and>
   (\<exists>members. update_content_cache cache fs ''content_cache.txt'' = Some (JObject members) \<and>
       sorted (map fst members) \<and>
       set members = (\<lambda>(k, v). (k, JString v)) ` set cache) \<and>
   (\<forall>name. name \<noteq> ''content_cache.txt'' \<longrightarrow> update_content_cache cache fs name = fs name)"
proof (intro conjI impI allI)
  assume dist: "distinct (map fst cache)"
  have "loads_dict json_string (dumps_sorted JString cache) = Inr (sort_key fst cache)"
    using dist by (rule loads_dumps) simp
  then have "load_content_cache (update_content_cache cache fs) = Inr (True, sort_key fst cache)"
    by (simp add: load_content_cache_def update_content_cache_def)
  moreover have "map_of (sort_key fst cache) = map_of cache"
    using dist by (rule map_of_sort_key)
  moreover have "distinct (map fst (sort_key fst cache))"
    using dist by (simp add: map_fst_sort_key)
  ultimately show "\<exists>d. load_content_cache (update_content_cache cache fs) = Inr (True, d) \<and>
           map_of d = map_of cache \<and> distinct (map fst d)"
    by blast
next
  assume "fs ''content_cache.txt'' = None"
  then show "load_content_cache fs = Inr (False, [])"
    by (simp add: load_content_cache_def)
next
  let ?m = "sort_key fst (map (\<lambda>(k, v). (k, JString v)) cache)"
  have "update_content_cache cache fs ''content_cache.txt'' = Some (JObject ?m)"
    by (simp add: update_content_cache_def dumps_sorted_def)
  moreover have "sorted (map fst ?m)" by (rule sorted_sort_key)
  moreover have "set ?m = (\<lambda>(k, v). (k, JString v)) ` set cache" by simp
  ultimately show "\<exists>members. update_content_cache cache fs ''content_cache.txt'' = Some (JObject members) \<and>
       sorted (map fst members) \<and> set members = (\<lambda>(k, v). (k, JString v)) ` set cache"
    by blast
next
  fix name :: string
  assume "name \<noteq> ''content_cache.txt''"
  then show "update_content_cache cache fs name = fs name"
    by (simp add: update_content_cache_def)
qed

theorem content_cache_round_trip_witness:
  "distinct (map fst contents_ex) \<and>
   no_files ''content_cache.txt'' = None \<and>
   load_content_cache no_files = Inr (False, []) \<and>
   load_content_cache (update_content_cache contents_ex no_files) =
     Inr (True, [(''https://a.com/x'', ''some text''), (''https://b.com/z'', [])]) \<and>
   (\<exists>d. load_content_cache (update_content_cache contents_ex no_files) = Inr (True, d) \<and>
        map_of d = map_of contents_ex \<and> distinct (map fst d))"
proof -
  have dist: "distinct (map fst contents_ex)"
    by (simp add: contents_ex_def)
  have none: "no_files ''content_cache.txt'' = None"
    by (simp add: no_files_def)
  have val: "load_content_cache (update_content_cache contents_ex no_files) =
     Inr (True, [(''https://a.com/x'', ''some text''), (''https://b.com/z'', [])])"
    by code_simp
  show ?thesis
    using content_cache_round_trip[of contents_ex no_files] dist none val by blast
qed

section \<open>Steps of workers and dispatcher\<close>

lemma map_of_dict_set:
  "map_of (dict_set d k v) k' = (if k' = k then Some v else map_of d k')"
  by (induction d) auto

lemma has_key_map_of: "has_key d k \<longleftrightarrow> map_of d k \<noteq> None"
  by (simp add: has_key_def map_of_eq_None_iff)

lemma has_key_dict_set: "has_key (dict_set d k v) k' \<longleftrightarrow> k' = k \<or> has_key d k'"
  by (simp add: has_key_map_of map_of_dict_set)

lemmas step_defs = set_pc_def write_contents_def write_keywords_def record_call_def
  seen_contents_def seen_keywords_def

lemma worker_step_frame [simp]:
  "files (worker_step env i s) = files s"
  "dpc (worker_step env i s) = dpc s"
  "results (worker_step env i s) = results s"
  "contents_proxy (worker_step env i s) = contents_proxy s"
  "keywords_proxy (worker_step env i s) = keywords_proxy s"
  "length (tasks (worker_step env i s)) = length (tasks s)"
  by (auto simp: worker_step_def step_defs Let_def
      split: worker_pc.splits sum.splits option.splits)

lemma worker_step_links [simp]:
  "map task_link (tasks (worker_step env i s)) = map task_link (tasks s)"
  by (auto simp: worker_step_def step_defs Let_def map_update list_update_same_conv
      split: worker_pc.splits sum.splits option.splits)


lemma worker_step_out_of_range: "\<not> i < length (tasks s) \<Longrightarrow> worker_step env i s = s"
  by (simp add: worker_step_def)

lemma worker_step_finished: "ready (wpc (tasks s ! i)) \<Longrightarrow> worker_step env i s = s"
  by (cases "wpc (tasks s ! i)") (auto simp: worker_step_def Let_def)

lemma worker_step_contents:
  "contents (worker_step env i s) = contents s \<or>
   (\<exists>text. i < length (tasks s) \<and> contents_proxy s \<and> wpc (tasks s ! i) = Fetching \<and>
      get_content env (task_link (tasks s ! i)) = Inr text \<and>
      contents (worker_step env i s) = dict_set (contents s) (task_link (tasks s ! i)) text)"
  by (auto simp: worker_step_def step_defs Let_def
      split: worker_pc.splits sum.splits option.splits)

lemma worker_step_keywords:
  "keywords (worker_step env i s) = keywords s \<or>
   (\<exists>text kwds. i < length (tasks s) \<and> keywords_proxy s \<and>
      wpc (tasks s ! i) = Extracting text \<and> get_keywords env text = Inr kwds \<and>
      keywords (worker_step env i s) = dict_set (keywords s) (task_link (tasks s ! i)) kwds)"
  by (auto simp: worker_step_def step_defs Let_def
      split: worker_pc.splits sum.splits option.splits)

lemma dispatcher_step_frame [simp]:
  "tasks (dispatcher_step s) = tasks s"
  "calls (dispatcher_step s) = calls s"
  "contents_proxy (dispatcher_step s) = contents_proxy s"
  "keywords_proxy (dispatcher_step s) = keywords_proxy s"
  by (auto simp: dispatcher_step_def split: dispatcher_pc.splits prod.splits)

lemma dispatcher_step_contents:
  "contents (dispatcher_step s) = contents s \<or>
   (\<exists>n res link. dpc s = D_for n \<and> n < length (results s) \<and> results s ! n = (res, link) \<and>
      ready (res_pc s res) \<and> \<not> successful (res_pc s res) \<and>
      dpc (dispatcher_step s) = D_except link n \<and>
      contents (dispatcher_step s) = dict_set (contents s) link [])"
  by (auto simp: dispatcher_step_def split: dispatcher_pc.splits prod.splits)

lemma dispatcher_step_keywords:
  "keywords (dispatcher_step s) = keywords s \<or>
   (\<exists>n link. dpc s = D_except link n \<and>
      keywords (dispatcher_step s) = dict_set (keywords s) link [(''ERROR'', 0)])"
  by (auto simp: dispatcher_step_def split: dispatcher_pc.splits prod.splits)

lemma failed_iff: "ready pc \<and> \<not> successful pc \<longleftrightarrow> (\<exists>e. pc = Failed e)"
  by (cases pc) auto

lemma worker_step_fetch:
  assumes "i < length (tasks s)" and "wpc (tasks s ! i) = Fetching"
    and "get_content env (task_link (tasks s ! i)) = Inr body"
  shows "contents_proxy s \<Longrightarrow>
      contents (worker_step env i s) = dict_set (contents s) (task_link (tasks s ! i)) body"
    and "\<not> contents_proxy s \<Longrightarrow> contents (worker_step env i s) = contents s"
    and "\<not> contents_proxy s \<Longrightarrow>
      own_contents (tasks (worker_step env i s) ! i) =
        dict_set (own_contents (tasks s ! i)) (task_link (tasks s ! i)) body"
  using assms by (simp_all add: worker_step_def step_defs Let_def)

lemma worker_step_extract:
  assumes "i < length (tasks s)" and "wpc (tasks s ! i) = Extracting x"
    and "get_keywords env x = Inr kwds"
  shows "keywords_proxy s \<Longrightarrow>
      keywords (worker_step env i s) = dict_set (keywords s) (task_link (tasks s ! i)) kwds"
    and "\<not> keywords_proxy s \<Longrightarrow> keywords (worker_step env i s) = keywords s"
    and "\<not> keywords_proxy s \<Longrightarrow>
      own_keywords (tasks (worker_step env i s) ! i) =
        dict_set (own_keywords (tasks s ! i)) (task_link (tasks s ! i)) kwds"
  using assms by (simp_all add: worker_step_def step_defs Let_def)

lemma dispatcher_step_handler:
  assumes "dpc s = D_for n" and "n < length (results s)" and "results s ! n = (res, link)"
    and "wpc (tasks s ! res) = Failed e"
  shows "contents (dispatcher_step s) = dict_set (contents s) link []"
    and "keywords (dispatcher_step s) = keywords s"
    and "dpc (dispatcher_step s) = D_except link n"
  using assms by (simp_all add: dispatcher_step_def res_pc_def)

lemma dispatcher_step_sentinel:
  assumes "dpc s = D_except link n"
  shows "keywords (dispatcher_step s) = dict_set (keywords s) link [(''ERROR'', 0)]"
    and "contents (dispatcher_step s) = contents s"
    and "dpc (dispatcher_step s) = D_for (Suc n)"
  using assms by (simp_all add: dispatcher_step_def)

lemma dispatcher_step_files:
  "files (dispatcher_step s) = files s \<or>
   ((dpc s = D_flush \<or> dpc s = D_last_flush) \<and> files (dispatcher_step s) = update_caches s)"
  by (auto simp: dispatcher_step_def split: dispatcher_pc.splits prod.splits)

lemma init_run_ex: "init_run files_ex links_ex = Inr state0_ex"
  by (simp add: init_run_def load_content_cache_def load_keywords_cache_def files_ex_def
      no_files_def loads_dict_def typed_dict_def dict_update_def links_ex_def state0_ex_def
      upt_rec)

lemma init_run_plain: "init_run no_files links_ex = Inr state0_plain"
  by (simp add: init_run_def load_content_cache_def load_keywords_cache_def
      no_files_def links_ex_def state0_plain_def upt_rec)

text \<open>
  Claim C8, as the code has it. The dispatcher is not the only writer. A dictionary
  loaded from a cache file is a \<^verbatim>\<open>manager.dict()\<close> proxy, and a worker writes into it:
  the content of its link when \<^verbatim>\<open>get_content\<close> returns, the keywords of its link when
  \<^verbatim>\<open>get_keywords\<close> returns. When the cache file does not exist the dictionary is a
  plain \<^verbatim>\<open>dict\<close>, the worker has a copy, and its write goes to the copy and not to the
  dictionary of the dispatcher. A step of a worker changes no file and no entry of
  another link, and it changes the shared dictionaries at these two statements only.
  The dispatcher writes an entry only for a task that is ready and has failed: the
  empty content, and in the next statement the \<^verbatim>\<open>ERROR\<close> keyword; it changes the
  dictionaries at these two statements only, and a file only by \<^verbatim>\<open>update_caches\<close>.
\<close>

theorem workers_write_only_their_link:
  "(i < length (tasks s) \<and> wpc (tasks s ! i) = Fetching \<and>
    get_content env (task_link (tasks s ! i)) = Inr body \<longrightarrow>
      (contents_proxy s \<longrightarrow>
         contents (worker_step env i s) = dict_set (contents s) (task_link (tasks s ! i)) body) \<and>
      (\<not> contents_proxy s \<longrightarrow>
         contents (worker_step env i s) = contents s \<and>
         own_contents (tasks (worker_step env i s) ! i) =
           dict_set (own_contents (tasks s ! i)) (task_link (tasks s ! i)) body)) \<and>
   (i < length (tasks s) \<and> wpc (tasks s ! i) = Extracting x \<and>
    get_keywords env x = Inr kwds \<longrightarrow>
      (keywords_proxy s \<longrightarrow>
         keywords (worker_step env i s) = dict_set (keywords s) (task_link (tasks s ! i)) kwds) \<and>
      (\<not> keywords_proxy s \<longrightarrow>
         keywords (worker_step env i s) = keywords s \<and>
         own_keywords (tasks (worker_step env i s) ! i) =
           dict_set (own_keywords (tasks s ! i)) (task_link (tasks s ! i)) kwds)) \<and>
   (contents (worker_step env i s) \<noteq> contents s \<longrightarrow>
      i < length (tasks s) \<and> contents_proxy s \<and> wpc (tasks s ! i) = Fetching) \<and>
   (keywords (worker_step env i s) \<noteq> keywords s \<longrightarrow>
      i < length (tasks s) \<and> keywords_proxy s \<and> (\<exists>x. wpc (tasks s ! i) = Extracting x)) \<and>
   files (worker_step env i s) = files s \<and>
   (\<forall>k. i < length (tasks s) \<and> k \<noteq> task_link (tasks s ! i) \<longrightarrow>
      map_of (contents (worker_step env i s)) k = map_of (contents s) k \<and>
      map_of (keywords (worker_step env i s)) k = map_of (keywords s) k) \<and>
   (\<not> i < length (tasks s) \<longrightarrow> worker_step env i s = s) \<and>
   (dpc s = D_for n \<and> n < length (results s) \<and> results s ! n = (res, link) \<and>
    wpc (tasks s ! res) = Failed e \<longrightarrow>
      contents (dispatcher_step s) = dict_set (contents s) link [] \<and>
      keywords (dispatcher_step s) = keywords s \<and>
      dpc (dispatcher_step s) = D_except link n) \<and>
   (dpc s = D_except link n \<longrightarrow>
      keywords (dispatcher_step s) = dict_set (keywords s) link [(''ERROR'', 0)] \<and>
      contents (dispatcher_step s) = contents s \<and>
      dpc (dispatcher_step s) = D_for (Suc n)) \<and>
   (contents (dispatcher_step s) \<noteq> contents s \<longrightarrow>
      (\<exists>m r l err. dpc s = D_for m \<and> m < length (results s) \<and> results s ! m = (r, l) \<and>
         wpc (tasks s ! r) = Failed err \<and> dpc (dispatcher_step s) = D_except l m)) \<and>
   (keywords (dispatcher_step s) \<noteq> keywords s \<longrightarrow> (\<exists>l m. dpc s = D_except l m)) \<and>
   (files (dispatcher_step s) = files s \<or>
    ((dpc s = D_flush \<or> dpc s = D_last_flush) \<and> files (dispatcher_step s) = update_caches s))"
proof (intro conjI allI impI)
  assume a: "i < length (tasks s) \<and> wpc (tasks s ! i) = Fetching \<and>
    get_content env (task_link (tasks s ! i)) = Inr body"
  {
    assume "contents_proxy s"
    then show "contents (worker_step env i s) =
        dict_set (contents s) (task_link (tasks s ! i)) body"
      using a by (intro worker_step_fetch(1)) simp_all
  next
    assume p: "\<not> contents_proxy s"
    show "contents (worker_step env i s) = contents s"
      using a p by (intro worker_step_fetch(2)[of i s env body]) simp_all
    show "own_contents (tasks (worker_step env i s) ! i) =
        dict_set (own_contents (tasks s ! i)) (task_link (tasks s ! i)) body"
      using a p by (intro worker_step_fetch(3)) simp_all
  }
next
  assume a: "i < length (tasks s) \<and> wpc (tasks s ! i) = Extracting x \<and>
    get_keywords env x = Inr kwds"
  {
    assume "keywords_proxy s"
    then show "keywords (worker_step env i s) =
        dict_set (keywords s) (task_link (tasks s ! i)) kwds"
      using a by (intro worker_step_extract(1)[of i s x env kwds]) simp_all
  next
    assume p: "\<not> keywords_proxy s"
    show "keywords (worker_step env i s) = keywords s"
      using a p by (intro worker_step_extract(2)[of i s x env kwds]) simp_all
    show "own_keywords (tasks (worker_step env i s) ! i) =
        dict_set (own_keywords (tasks s ! i)) (task_link (tasks s ! i)) kwds"
      using a p by (intro worker_step_extract(3)[of i s x env kwds]) simp_all
  }
next
  assume "contents (worker_step env i s) \<noteq> contents s"
  then show "i < length (tasks s)" "contents_proxy s" "wpc (tasks s ! i) = Fetching"
    using worker_step_contents[of env i s] by blast+
next
  assume "keywords (worker_step env i s) \<noteq> keywords s"
  then show "i < length (tasks s)" "keywords_proxy s" "\<exists>x. wpc (tasks s ! i) = Extracting x"
    using worker_step_keywords[of env i s] by blast+
next
  show "files (worker_step env i s) = files s" by simp
next
  fix k assume k: "i < length (tasks s) \<and> k \<noteq> task_link (tasks s ! i)"
  show "map_of (contents (worker_step env i s)) k = map_of (contents s) k"
    using worker_step_contents[of env i s] k by (auto simp: map_of_dict_set)
  show "map_of (keywords (worker_step env i s)) k = map_of (keywords s) k"
    using worker_step_keywords[of env i s] k by (auto simp: map_of_dict_set)
next
  assume "\<not> i < length (tasks s)"
  then show "worker_step env i s = s" by (rule worker_step_out_of_range)
next
  assume a: "dpc s = D_for n \<and> n < length (results s) \<and> results s ! n = (res, link) \<and>
    wpc (tasks s ! res) = Failed e"
  show "contents (dispatcher_step s) = dict_set (contents s) link []"
    using a by (intro dispatcher_step_handler(1)[of s n res link e]) simp_all
  show "keywords (dispatcher_step s) = keywords s"
    using a by (intro dispatcher_step_handler(2)[of s n res link e]) simp_all
  show "dpc (dispatcher_step s) = D_except link n"
    using a by (intro dispatcher_step_handler(3)[of s n res link e]) simp_all
next
  assume a: "dpc s = D_except link n"
  show "keywords (dispatcher_step s) = dict_set (keywords s) link [(''ERROR'', 0)]"
    using a by (rule dispatcher_step_sentinel(1))
  show "contents (dispatcher_step s) = contents s"
    using a by (rule dispatcher_step_sentinel(2))
  show "dpc (dispatcher_step s) = D_for (Suc n)"
    using a by (rule dispatcher_step_sentinel(3))
next
  assume "contents (dispatcher_step s) \<noteq> contents s"
  then obtain m r l where m: "dpc s = D_for m" "m < length (results s)" "results s ! m = (r, l)"
    "ready (res_pc s r) \<and> \<not> successful (res_pc s r)" "dpc (dispatcher_step s) = D_except l m"
    using dispatcher_step_contents[of s] by blast
  obtain err where "wpc (tasks s ! r) = Failed err"
    using m(4) unfolding failed_iff res_pc_def by blast
  then show "\<exists>m r l err. dpc s = D_for m \<and> m < length (results s) \<and> results s ! m = (r, l) \<and>
         wpc (tasks s ! r) = Failed err \<and> dpc (dispatcher_step s) = D_except l m"
    using m by blast
next
  assume "keywords (dispatcher_step s) \<noteq> keywords s"
  then show "\<exists>l m. dpc s = D_except l m"
    using dispatcher_step_keywords[of s] by blast
next
  show "files (dispatcher_step s) = files s \<or>
    ((dpc s = D_flush \<or> dpc s = D_last_flush) \<and> files (dispatcher_step s) = update_caches s)"
    by (rule dispatcher_step_files)
qed

theorem workers_write_only_their_link_witness:
  "0 < length (tasks (run env_ex [W 0, W 0, W 0] state0_ex)) \<and>
   wpc (tasks (run env_ex [W 0, W 0, W 0] state0_ex) ! 0) = Fetching \<and>
   get_content env_ex ''https://a.com/x'' = Inr long_text \<and>
   contents_proxy (run env_ex [W 0, W 0, W 0] state0_ex) \<and>
   contents (run env_ex [W 0, W 0, W 0] state0_ex) = [] \<and>
   contents (worker_step env_ex 0 (run env_ex [W 0, W 0, W 0] state0_ex)) =
     [(''https://a.com/x'', long_text)] \<and>
   files (worker_step env_ex 0 (run env_ex [W 0, W 0, W 0] state0_ex)) =
     files (run env_ex [W 0, W 0, W 0] state0_ex) \<and>
   wpc (tasks (run env_ex [W 0, W 0, W 0] state0_plain) ! 0) = Fetching \<and>
   \<not> contents_proxy (run env_ex [W 0, W 0, W 0] state0_plain) \<and>
   contents (worker_step env_ex 0 (run env_ex [W 0, W 0, W 0] state0_plain)) = [] \<and>
   own_contents (tasks (worker_step env_ex 0 (run env_ex [W 0, W 0, W 0] state0_plain)) ! 0) =
     [(''https://a.com/x'', long_text)] \<and>
   dpc (run env_ex [W 2, W 2, W 2, W 2, D, D, D] state0_ex) = D_for 2 \<and>
   results (run env_ex [W 2, W 2, W 2, W 2, D, D, D] state0_ex) ! 2 = (2, ''https://b.com/z'') \<and>
   wpc (tasks (run env_ex [W 2, W 2, W 2, W 2, D, D, D] state0_ex) ! 2) = Failed FetchError \<and>
   contents (dispatcher_step (run env_ex [W 2, W 2, W 2, W 2, D, D, D] state0_ex)) =
     [(''https://b.com/z'', [])] \<and>
   dpc (dispatcher_step (run env_ex [W 2, W 2, W 2, W 2, D, D, D] state0_ex)) =
     D_except ''https://b.com/z'' 2 \<and>
   wpc (tasks (run env_ex [W 0, W 0, W 0, W 0, W 0, W 0] state0_ex) ! 0) = Extracting long_text \<and>
   get_keywords env_ex long_text = Inr [(''neural networks'', 0.5), (''database index'', 0.4)] \<and>
   keywords_proxy (run env_ex [W 0, W 0, W 0, W 0, W 0, W 0] state0_ex) \<and>
   keywords (worker_step env_ex 0 (run env_ex [W 0, W 0, W 0, W 0, W 0, W 0] state0_ex)) =
     [(''https://old.org/p'', [(''legacy'', 0.9)]),
      (''https://a.com/x'', [(''neural networks'', 0.5), (''database index'', 0.4)])] \<and>
   dpc (run env_ex [W 2, W 2, W 2, W 2, D, D, D, D] state0_ex) = D_except ''https://b.com/z'' 2 \<and>
   keywords (dispatcher_step (run env_ex [W 2, W 2, W 2, W 2, D, D, D, D] state0_ex)) =
     [(''https://old.org/p'', [(''legacy'', 0.9)]), (''https://b.com/z'', [(''ERROR'', 0)])] \<and>
   \<not> 5 < length (tasks state0_ex) \<and> worker_step env_ex 5 state0_ex = state0_ex"
proof -
  let ?s = "run env_ex [W 0, W 0, W 0] state0_ex"
  let ?x = "run env_ex [W 0, W 0, W 0, W 0, W 0, W 0] state0_ex"
  let ?h = "run env_ex [W 2, W 2, W 2, W 2, D, D, D, D] state0_ex"
  let ?p = "run env_ex [W 0, W 0, W 0] state0_plain"
  let ?d = "run env_ex [W 2, W 2, W 2, W 2, D, D, D] state0_ex"
  have s: "0 < length (tasks ?s)" "wpc (tasks ?s ! 0) = Fetching"
    "task_link (tasks ?s ! 0) = ''https://a.com/x''" "contents_proxy ?s" "contents ?s = []"
    by code_simp+
  have g: "get_content env_ex ''https://a.com/x'' = Inr long_text"
    by code_simp
  have p: "0 < length (tasks ?p)" "wpc (tasks ?p ! 0) = Fetching"
    "task_link (tasks ?p ! 0) = ''https://a.com/x''" "\<not> contents_proxy ?p" "contents ?p = []"
    "own_contents (tasks ?p ! 0) = []"
    by code_simp+
  have d: "dpc ?d = D_for 2" "2 < length (results ?d)"
    "results ?d ! 2 = (2, ''https://b.com/z'')" "wpc (tasks ?d ! 2) = Failed FetchError"
    "contents ?d = []"
    by code_simp+
  have r: "\<not> 5 < length (tasks state0_ex)" by code_simp
  have x: "0 < length (tasks ?x)" "wpc (tasks ?x ! 0) = Extracting long_text"
    "task_link (tasks ?x ! 0) = ''https://a.com/x''" "keywords_proxy ?x"
    "keywords ?x = [(''https://old.org/p'', [(''legacy'', 0.9)])]"
    "get_keywords env_ex long_text = Inr [(''neural networks'', 0.5), (''database index'', 0.4)]"
    by code_simp+
  have h: "dpc ?h = D_except ''https://b.com/z'' 2"
    "keywords ?h = [(''https://old.org/p'', [(''legacy'', 0.9)])]"
    by code_simp+
  note tx = workers_write_only_their_link[where i = 0 and s = ?x and env = env_ex
      and x = long_text and kwds = "[(''neural networks'', 0.5), (''database index'', 0.4)]"]
  note th = workers_write_only_their_link[where s = ?h and n = 2
      and link = "''https://b.com/z''"]
  have c6: "keywords (worker_step env_ex 0 ?x) =
     [(''https://old.org/p'', [(''legacy'', 0.9)]),
      (''https://a.com/x'', [(''neural networks'', 0.5), (''database index'', 0.4)])]"
    using tx[THEN conjunct2, THEN conjunct1] x by simp
  have c7: "keywords (dispatcher_step ?h) =
     [(''https://old.org/p'', [(''legacy'', 0.9)]), (''https://b.com/z'', [(''ERROR'', 0)])]"
    using th[THEN conjunct2, THEN conjunct2, THEN conjunct2, THEN conjunct2, THEN conjunct2,
        THEN conjunct2, THEN conjunct2, THEN conjunct2, THEN conjunct1] h
    by simp
  note ts = workers_write_only_their_link[where i = 0 and s = ?s and env = env_ex
      and body = long_text]
  note tp = workers_write_only_their_link[where i = 0 and s = ?p and env = env_ex
      and body = long_text]
  note td = workers_write_only_their_link[where s = ?d and n = 2 and res = 2
      and link = "''https://b.com/z''" and e = FetchError]
  note tr = workers_write_only_their_link[where i = 5 and s = state0_ex and env = env_ex]
  have c1: "contents (worker_step env_ex 0 ?s) = [(''https://a.com/x'', long_text)]"
    using ts[THEN conjunct1] s g by simp
  have c2: "files (worker_step env_ex 0 ?s) = files ?s"
    using ts by blast
  have c3: "contents (worker_step env_ex 0 ?p) = []"
    "own_contents (tasks (worker_step env_ex 0 ?p) ! 0) = [(''https://a.com/x'', long_text)]"
    using tp[THEN conjunct1] p g by simp_all
  have c4: "contents (dispatcher_step ?d) = [(''https://b.com/z'', [])]"
    "dpc (dispatcher_step ?d) = D_except ''https://b.com/z'' 2"
    using td[THEN conjunct2, THEN conjunct2, THEN conjunct2, THEN conjunct2, THEN conjunct2,
        THEN conjunct2, THEN conjunct2, THEN conjunct1] d
    by simp_all
  have c5: "worker_step env_ex 5 state0_ex = state0_ex"
    using tr r by blast
  show ?thesis
    using s g p d r x h c1 c2 c3 c4 c5 c6 c7 by simp
qed

text \<open>
  The statement that only the dispatcher writes fails: four steps of the first worker, with the dispatcher
  still before its first statement, put the text of \<^verbatim>\<open>https://a.com/x\<close> into the
  shared \<^verbatim>\<open>contents\<close>, and \<^verbatim>\<open>process_link\<close> on empty dictionaries leaves the fetched
  text in the dictionary it was given.
\<close>

theorem workers_write_cache_counterexample:
  "init_run files_ex links_ex = Inr state0_ex \<and>
   dpc (run env_ex [W 0, W 0, W 0, W 0] state0_ex) = D_while \<and>
   map_of (contents state0_ex) ''https://a.com/x'' = None \<and>
   map_of (contents (run env_ex [W 0, W 0, W 0, W 0] state0_ex)) ''https://a.com/x'' =
     Some long_text \<and>
   contents_after (process_link env_ex ''https://a.com/x'' [] []) =
     [(''https://a.com/x'', long_text)]"
proof -
  have a: "dpc (run env_ex [W 0, W 0, W 0, W 0] state0_ex) = D_while"
    by code_simp
  have b: "map_of (contents state0_ex) ''https://a.com/x'' = None"
    by code_simp
  have c: "map_of (contents (run env_ex [W 0, W 0, W 0, W 0] state0_ex)) ''https://a.com/x'' =
     Some long_text"
    by code_simp
  have d: "contents_after (process_link env_ex ''https://a.com/x'' [] []) =
     [(''https://a.com/x'', long_text)]"
    by code_simp
  show ?thesis using init_run_ex a b c d by simp
qed

section \<open>Cached links\<close>






lemma worker_step_has_key_keywords:
  "has_key (keywords s) l \<Longrightarrow> has_key (keywords (worker_step env i s)) l"
  using worker_step_keywords[of env i s] by (auto simp: has_key_dict_set)


















section \<open>The keyword cache is returned whole\<close>















end
